theory Spec2Isabelle
  imports Main "HOL-Library.Word" "HOL-Library.Multiset_Order"
begin

section \<open>Machine integers and pointers of the solver\<close>

text \<open>
  The solver of \<^verbatim>\<open>linkgraph/mcf.cpp\<close> computes with \<^verbatim>\<open>uint\<close> (32 bit, unsigned,
  wrapping), \<^verbatim>\<open>int\<close> (32 bit, two's complement) and \<^verbatim>\<open>NodeID\<close> (16 bit, unsigned).
  Unsigned values are words. No arithmetic is ever done on an \<^verbatim>\<open>int\<close> in this file of
  the program (only \<^verbatim>\<open>min\<close> and comparisons), so an \<^verbatim>\<open>int\<close> is a HOL integer, and the
  one place where an unsigned difference is passed as an \<^verbatim>\<open>int\<close> argument reads the
  word as two's complement (\<open>sint\<close>).
\<close>

type_synonym uint = "32 word"
type_synonym NodeID = "16 word"

definition UINT_MAX :: uint where
  "UINT_MAX = 4294967295"

definition INT_MIN :: int where
  "INT_MIN = - 2147483648"

definition INT_MAX :: int where
  "INT_MAX = 2147483647"

definition INVALID_NODE :: NodeID where
  "INVALID_NODE = 65535"

text \<open>
  A non-null \<^verbatim>\<open>Path *\<close> is an address; a pointer that may be \<^verbatim>\<open>NULL\<close> is an
  optional address. The objects live in a store from addresses to \<open>Path\<close> values.
\<close>

type_synonym ptr = nat

section \<open>Paths and edges\<close>

text \<open>
  Modelled from the spec: the class \<^verbatim>\<open>Path\<close> (declared in \<^verbatim>\<open>linkgraphjob.h\<close>, which is
  not among the sources). Its attributes are those of section 3 of the specification,
  under the names \<^verbatim>\<open>mcf.cpp\<close> reads them by (\<^verbatim>\<open>this->distance\<close>,
  \<^verbatim>\<open>base->free_capacity\<close>, \<^verbatim>\<open>GetNode()\<close>, \<^verbatim>\<open>GetOrigin()\<close>, \<^verbatim>\<open>GetFlow()\<close>, ...).
\<close>

record Path =
  distance :: uint
  capacity :: uint
  free_capacity :: int
  flow :: uint
  node :: NodeID
  origin :: NodeID
  num_children :: uint
  parent :: "ptr option"

type_synonym store = "ptr \<Rightarrow> Path"

section \<open>Annotation ranking\<close>

text \<open>
  \<^verbatim>\<open>DistanceAnnotation::IsBetter\<close> (lines 181-204). \<open>this\<close> and \<open>base\<close> are the objects
  the two pointers refer to; \<^verbatim>\<open>base->distance + dist\<close> is an unsigned sum and wraps.
\<close>

definition DistanceAnnotation_IsBetter :: "Path \<Rightarrow> Path \<Rightarrow> uint \<Rightarrow> int \<Rightarrow> uint \<Rightarrow> bool" where
  "DistanceAnnotation_IsBetter this base cap free_cap dist =
     (if distance base = UINT_MAX then False
      else if distance this = UINT_MAX then True
      else if free_cap > 0 \<and> free_capacity base > 0 then
        (if free_capacity this > 0 then distance base + dist < distance this else True)
      else
        (if free_capacity this > 0 then False else distance base + dist < distance this))"

text \<open>
  \<^verbatim>\<open>CapacityAnnotation::IsBetter\<close> (lines 215-227). The static
  \<^verbatim>\<open>Path::GetCapacityRatio(int, uint)\<close> is declared in \<^verbatim>\<open>linkgraphjob.h\<close> and is a
  parameter here; the member \<^verbatim>\<open>GetCapacityRatio()\<close> applies it to the path's own
  \<open>free_capacity\<close> and \<open>capacity\<close>.
\<close>

definition GetCapacityRatio :: "(int \<Rightarrow> uint \<Rightarrow> int) \<Rightarrow> Path \<Rightarrow> int" where
  "GetCapacityRatio ratio this = ratio (free_capacity this) (capacity this)"

definition CapacityAnnotation_IsBetter ::
    "(int \<Rightarrow> uint \<Rightarrow> int) \<Rightarrow> Path \<Rightarrow> Path \<Rightarrow> uint \<Rightarrow> int \<Rightarrow> uint \<Rightarrow> bool" where
  "CapacityAnnotation_IsBetter ratio this base cap free_cap dist =
     (let min_cap = ratio (min (free_capacity base) free_cap) (min (capacity base) cap);
          this_cap = GetCapacityRatio ratio this
      in if min_cap = this_cap then
           (if distance base = UINT_MAX then False else distance base + dist < distance this)
         else min_cap > this_cap)"

text \<open>\<^verbatim>\<open>Greater<T>\<close> (lines 528-534), for any linearly ordered annotation type.\<close>

definition Greater :: "'a::linorder \<Rightarrow> 'a \<Rightarrow> NodeID \<Rightarrow> NodeID \<Rightarrow> bool" where
  "Greater x_anno y_anno x y =
     (if x_anno > y_anno then True
      else if x_anno < y_anno then False
      else x > y)"

text \<open>
  The two \<^verbatim>\<open>Comparator::operator()\<close> (lines 542-560). They take pointers: \<open>x \<noteq> y\<close> compares
  the addresses, everything else reads the objects. \<^verbatim>\<open>GetAnnotation()\<close> is the distance
  (an unsigned value) for a distance annotation and the capacity ratio (an \<^verbatim>\<open>int\<close>) for a
  capacity annotation.
\<close>

definition CapacityAnnotation_Comparator ::
    "(int \<Rightarrow> uint \<Rightarrow> int) \<Rightarrow> store \<Rightarrow> ptr \<Rightarrow> ptr \<Rightarrow> bool" where
  "CapacityAnnotation_Comparator ratio h x y =
     (x \<noteq> y \<and> Greater (GetCapacityRatio ratio (h x)) (GetCapacityRatio ratio (h y))
                       (node (h x)) (node (h y)))"

definition DistanceAnnotation_Comparator :: "store \<Rightarrow> ptr \<Rightarrow> ptr \<Rightarrow> bool" where
  "DistanceAnnotation_Comparator h x y =
     (x \<noteq> y \<and> \<not> Greater (distance (h x)) (distance (h y)) (node (h x)) (node (h y)))"

section \<open>Effective capacity in Dijkstra\<close>

text \<open>
  Lines 261-266 of \<^verbatim>\<open>MultiCommodityFlow::Dijkstra\<close>: the local \<^verbatim>\<open>capacity\<close> starts as
  \<^verbatim>\<open>edge.Capacity()\<close> and is scaled in place, in \<^verbatim>\<open>uint\<close> arithmetic.
\<close>

definition Dijkstra_capacity :: "uint \<Rightarrow> uint \<Rightarrow> uint" where
  "Dijkstra_capacity max_saturation edge_capacity =
     (if max_saturation \<noteq> UINT_MAX then
        (let capacity = edge_capacity * max_saturation;
             capacity = capacity div 100
         in if capacity = 0 then 1 else capacity)
      else edge_capacity)"

section \<open>Errors and results\<close>

text \<open>
  A failed \<^verbatim>\<open>assert\<close>, a dereferenced \<^verbatim>\<open>NULL\<close>, an index beyond the end of a vector and
  a division by zero are error values. A computation that does not return has the value
  \<open>None\<close>; one that returns gives \<open>Some\<close> of an error or of its result.
\<close>

datatype error = AssertionFailed | NullPointer | OutOfRange | DivisionByZero

type_synonym 'a result = "(error + 'a) option"

definition bind :: "'a result \<Rightarrow> ('a \<Rightarrow> 'b result) \<Rightarrow> 'b result" where
  "bind r f = (case r of None \<Rightarrow> None | Some (Inl e) \<Rightarrow> Some (Inl e) | Some (Inr x) \<Rightarrow> f x)"

section \<open>The link graph job\<close>

text \<open>
  Modelled from the spec: the \<^verbatim>\<open>Edge\<close> view of \<^verbatim>\<open>job[from][to]\<close> (declared in
  \<^verbatim>\<open>linkgraphjob.h\<close>, not among the sources), with the attributes of section 3 of the
  specification under the names of the accessors \<^verbatim>\<open>mcf.cpp\<close> calls.
\<close>

record Edge =
  Distance :: uint
  Capacity :: uint
  Flow :: uint
  Demand :: uint
  UnsatisfiedDemand :: uint

text \<open>
  The state the solver works on: the job (\<^verbatim>\<open>job.Size()\<close>, \<^verbatim>\<open>job.Settings().accuracy\<close>,
  the edges \<^verbatim>\<open>job[from][to]\<close>, the lists \<^verbatim>\<open>job[node].Paths()\<close>) and the memory holding the
  \<open>Path\<close> objects, with the next address \<^verbatim>\<open>new\<close> hands out. Node ids are 16 bit, so
  \<open>Size\<close> is at most 65535 in a job the program can hold; the loops over
  \<^verbatim>\<open>NodeID node = 0; node < size\<close> run over \<open>nodes\<close>.
\<close>

record state =
  Size :: nat
  accuracy :: uint
  edges :: "NodeID \<Rightarrow> NodeID \<Rightarrow> Edge"
  Paths :: "NodeID \<Rightarrow> ptr list"
  heap :: store
  brk :: ptr

text \<open>
  The edges and the memory are functions, changed by function update; a lookup in an
  updated function is evaluated at the point it is applied to.
\<close>

declare fun_upd_apply [code]

definition nodes :: "nat \<Rightarrow> NodeID list" where
  "nodes sz = map of_nat [0..<sz]"

text \<open>A \<^verbatim>\<open>PathVector\<close> (\<^verbatim>\<open>std::vector<Path *>\<close>) and its indexing.\<close>

type_synonym PathVector = "ptr option list"

definition at :: "PathVector \<Rightarrow> NodeID \<Rightarrow> error + ptr option" where
  "at v n = (if unat n < length v then Inr (v ! unat n) else Inl OutOfRange)"

section \<open>The ordered frontier\<close>

text \<open>
  The frontier \<^verbatim>\<open>std::set<Tannotation *, Comparator>\<close> is the sequence of its elements in
  the order of the comparator. \<^verbatim>\<open>insert\<close> and \<^verbatim>\<open>erase\<close> by key look for the first element
  that is not before the key: \<^verbatim>\<open>insert\<close> puts the key in front of it unless the two are
  equivalent, \<^verbatim>\<open>erase\<close> removes it if they are.
\<close>

fun set_insert :: "('a \<Rightarrow> 'a \<Rightarrow> bool) \<Rightarrow> 'a \<Rightarrow> 'a list \<Rightarrow> 'a list" where
  "set_insert cmp x [] = [x]"
| "set_insert cmp x (y # ys) =
     (if cmp y x then y # set_insert cmp x ys
      else if cmp x y then x # y # ys
      else y # ys)"

fun set_erase :: "('a \<Rightarrow> 'a \<Rightarrow> bool) \<Rightarrow> 'a \<Rightarrow> 'a list \<Rightarrow> 'a list" where
  "set_erase cmp x [] = []"
| "set_erase cmp x (y # ys) =
     (if cmp y x then y # set_erase cmp x ys
      else if cmp x y then y # ys
      else ys)"

section \<open>Dijkstra\<close>

text \<open>
  Modelled from the spec: the constructor \<^verbatim>\<open>Path(NodeID n, bool source)\<close> and
  \<^verbatim>\<open>Path::Detach\<close>, \<^verbatim>\<open>Path::Fork\<close> (\<^verbatim>\<open>linkgraphjob.h\<close> and \<^verbatim>\<open>linkgraphjob.cpp\<close>, not among the
  sources), after sections 3 and 4.1 of the specification. The store does not record
  that an object was freed. \<open>Fork\<close> is a parameter of the search below; this one is used
  where a search is run on a concrete job.
\<close>

definition Path_new :: "NodeID \<Rightarrow> bool \<Rightarrow> Path" where
  "Path_new n source =
     \<lparr>distance = (if source then 0 else UINT_MAX),
      capacity = (if source then UINT_MAX else 0),
      free_capacity = (if source then INT_MAX else INT_MIN),
      flow = 0, node = n, origin = (if source then n else INVALID_NODE),
      num_children = 0, parent = None\<rparr>"

definition Detach :: "store \<Rightarrow> ptr \<Rightarrow> store" where
  "Detach h this =
     (case parent (h this) of
        None \<Rightarrow> h
      | Some p \<Rightarrow>
          (let h1 = h(p := (h p)\<lparr>num_children := num_children (h p) - 1\<rparr>)
           in h1(this := (h1 this)\<lparr>parent := None\<rparr>)))"

definition Fork :: "store \<Rightarrow> ptr \<Rightarrow> ptr \<Rightarrow> uint \<Rightarrow> int \<Rightarrow> uint \<Rightarrow> store" where
  "Fork h this base cap free_cap dist =
     (if this = base then h
      else
        (let h1 = Detach h this;
             h2 = h1(this := (h1 this)
                    \<lparr>distance := distance (h1 base) + dist,
                     capacity := min (capacity (h1 base)) cap,
                     free_capacity := min (free_capacity (h1 base)) free_cap,
                     origin := origin (h1 base),
                     parent := Some base\<rparr>)
         in h2(base := (h2 base)\<lparr>num_children := num_children (h2 base) + 1\<rparr>)))"

text \<open>
  The body of the loop over the targets \<open>to\<close> that the edge iterator yields (lines
  258-274), for the template parameters \<open>IsBetter\<close> and \<open>Comparator\<close> of the annotation.
  \<open>source\<close> is the element taken from the frontier, \<open>from\<close> its node. The free capacity
  \<^verbatim>\<open>capacity - edge.Flow()\<close> is an unsigned difference passed as an \<^verbatim>\<open>int\<close>.
\<close>

definition Dijkstra_relax ::
    "(Path \<Rightarrow> Path \<Rightarrow> uint \<Rightarrow> int \<Rightarrow> uint \<Rightarrow> bool) \<Rightarrow> (store \<Rightarrow> ptr \<Rightarrow> ptr \<Rightarrow> bool) \<Rightarrow>
     (store \<Rightarrow> ptr \<Rightarrow> ptr \<Rightarrow> uint \<Rightarrow> int \<Rightarrow> uint \<Rightarrow> store) \<Rightarrow>
     (NodeID \<Rightarrow> NodeID \<Rightarrow> Edge) \<Rightarrow> uint \<Rightarrow> PathVector \<Rightarrow> ptr \<Rightarrow> NodeID \<Rightarrow> NodeID \<Rightarrow>
     store \<times> ptr list \<Rightarrow> error + store \<times> ptr list" where
  "Dijkstra_relax IsBetter Comparator Fork' job max_saturation paths source from to s =
     (case s of (h, annos) \<Rightarrow>
      if to = from then Inr (h, annos)
      else
        (let edge = job from to in
         if \<not> Distance edge < UINT_MAX then Inl AssertionFailed
         else
           (let capacity = Dijkstra_capacity max_saturation (Capacity edge);
                distance = Distance edge + 1
            in case at paths to of
                 Inl e \<Rightarrow> Inl e
               | Inr None \<Rightarrow> Inl NullPointer
               | Inr (Some dest) \<Rightarrow>
                   if IsBetter (h dest) (h source) capacity (sint (capacity - Flow edge)) distance
                   then
                     (let annos1 = set_erase (Comparator h) dest annos;
                          h1 = Fork' h dest source capacity (sint (capacity - Flow edge)) distance
                      in Inr (h1, set_insert (Comparator h1) dest annos1))
                   else Inr (h, annos))))"

text \<open>The loop over the targets (line 257): \<open>tos\<close> are the ids \<^verbatim>\<open>iter.Next()\<close> yields.\<close>

fun Dijkstra_for ::
    "(Path \<Rightarrow> Path \<Rightarrow> uint \<Rightarrow> int \<Rightarrow> uint \<Rightarrow> bool) \<Rightarrow> (store \<Rightarrow> ptr \<Rightarrow> ptr \<Rightarrow> bool) \<Rightarrow>
     (store \<Rightarrow> ptr \<Rightarrow> ptr \<Rightarrow> uint \<Rightarrow> int \<Rightarrow> uint \<Rightarrow> store) \<Rightarrow>
     (NodeID \<Rightarrow> NodeID \<Rightarrow> Edge) \<Rightarrow> uint \<Rightarrow> PathVector \<Rightarrow> ptr \<Rightarrow> NodeID \<Rightarrow> NodeID list \<Rightarrow>
     store \<times> ptr list \<Rightarrow> error + store \<times> ptr list" where
  "Dijkstra_for IsBetter Comparator Fork' job max_saturation paths source from [] s = Inr s"
| "Dijkstra_for IsBetter Comparator Fork' job max_saturation paths source from (to # tos) s =
     (case Dijkstra_relax IsBetter Comparator Fork' job max_saturation paths source from to s of
        Inl e \<Rightarrow> Inl e
      | Inr s' \<Rightarrow>
          Dijkstra_for IsBetter Comparator Fork' job max_saturation paths source from tos s')"

text \<open>
  The loop \<^verbatim>\<open>while (!annos.empty())\<close> (lines 251-276). The edge iterator is the function
  \<open>iter\<close>: \<open>iter source_node from\<close> is the sequence of ids that \<^verbatim>\<open>Next()\<close> yields after
  \<^verbatim>\<open>SetNode(source_node, from)\<close>, up to \<^verbatim>\<open>INVALID_NODE\<close>.
\<close>

partial_function (option) Dijkstra_while ::
    "(Path \<Rightarrow> Path \<Rightarrow> uint \<Rightarrow> int \<Rightarrow> uint \<Rightarrow> bool) \<Rightarrow> (store \<Rightarrow> ptr \<Rightarrow> ptr \<Rightarrow> bool) \<Rightarrow>
     (store \<Rightarrow> ptr \<Rightarrow> ptr \<Rightarrow> uint \<Rightarrow> int \<Rightarrow> uint \<Rightarrow> store) \<Rightarrow>
     (NodeID \<Rightarrow> NodeID \<Rightarrow> NodeID list) \<Rightarrow> (NodeID \<Rightarrow> NodeID \<Rightarrow> Edge) \<Rightarrow> uint \<Rightarrow> NodeID \<Rightarrow>
     PathVector \<Rightarrow> store \<Rightarrow> ptr list \<Rightarrow> store result" where
  "Dijkstra_while IsBetter Comparator Fork' iter job max_saturation source_node paths h annos =
     (case annos of
        [] \<Rightarrow> Some (Inr h)
      | source # annos' \<Rightarrow>
          (case Dijkstra_for IsBetter Comparator Fork' job max_saturation paths source
                  (node (h source)) (iter source_node (node (h source))) (h, annos') of
             Inl e \<Rightarrow> Some (Inl e)
           | Inr s' \<Rightarrow>
               Dijkstra_while IsBetter Comparator Fork' iter job max_saturation source_node
                 paths (fst s') (snd s')))"

declare Dijkstra_while.simps [code]

text \<open>The allocation loop (lines 246-250); \<^verbatim>\<open>new\<close> takes the next address.\<close>

fun Dijkstra_init ::
    "(store \<Rightarrow> ptr \<Rightarrow> ptr \<Rightarrow> bool) \<Rightarrow> NodeID \<Rightarrow> nat list \<Rightarrow>
     store \<times> ptr \<times> PathVector \<times> ptr list \<Rightarrow> store \<times> ptr \<times> PathVector \<times> ptr list" where
  "Dijkstra_init Comparator source_node [] s = s"
| "Dijkstra_init Comparator source_node (n # ns) (h, b, paths, annos) =
     (let h1 = h(b := Path_new (of_nat n) (of_nat n = source_node))
      in Dijkstra_init Comparator source_node ns
           (h1, Suc b, paths[n := Some b], set_insert (Comparator h1) b annos))"

definition Dijkstra ::
    "(Path \<Rightarrow> Path \<Rightarrow> uint \<Rightarrow> int \<Rightarrow> uint \<Rightarrow> bool) \<Rightarrow> (store \<Rightarrow> ptr \<Rightarrow> ptr \<Rightarrow> bool) \<Rightarrow>
     (store \<Rightarrow> ptr \<Rightarrow> ptr \<Rightarrow> uint \<Rightarrow> int \<Rightarrow> uint \<Rightarrow> store) \<Rightarrow>
     (NodeID \<Rightarrow> NodeID \<Rightarrow> NodeID list) \<Rightarrow> uint \<Rightarrow> NodeID \<Rightarrow> state \<Rightarrow>
     (state \<times> PathVector) result" where
  "Dijkstra IsBetter Comparator Fork' iter max_saturation source_node st =
     (case Dijkstra_init Comparator source_node [0..<Size st]
             (heap st, brk st, replicate (Size st) None, []) of
        (h, b, paths, annos) \<Rightarrow>
          bind (Dijkstra_while IsBetter Comparator Fork' iter (edges st) max_saturation
                  source_node paths h annos)
            (\<lambda>h'. Some (Inr (st\<lparr>heap := h', brk := b\<rparr>, paths))))"

section \<open>Flow assignment\<close>

text \<open>
  Modelled from the spec: \<^verbatim>\<open>Clamp\<close> (\<^verbatim>\<open>core/math_func.hpp\<close>, not among the sources), the
  \<open>clamp\<close> of section 4.5.
\<close>

definition Clamp :: "uint \<Rightarrow> uint \<Rightarrow> uint \<Rightarrow> uint" where
  "Clamp a lo hi = (if a \<le> lo then lo else if a \<ge> hi then hi else a)"

text \<open>
  Modelled from the spec: \<^verbatim>\<open>Path::AddFlow(uint, LinkGraphJob &, uint)\<close>
  (\<^verbatim>\<open>linkgraphjob.cpp\<close>, not among the sources), after section 4.1 of the specification:
  it walks from this path up to the root; with \<open>residual(e) = saturation_cap(e) - flow(e)\<close>,
  where \<open>saturation_cap(e)\<close> is \<open>capacity(e)\<close> for \<open>max_saturation = \<infinity>\<close> and
  \<open>max(1, capacity(e) * max_saturation / 100)\<close> otherwise, it returns
  \<open>f = min(want, min over the path's edges of max(0, residual(e)))\<close>, unbounded by the
  residual when \<open>max_saturation = \<infinity>\<close>, and adds \<open>f\<close> to the flow of each edge and of each
  path on the walk. The walk follows the \<open>parent\<close> pointers and need not end.
\<close>

partial_function (option) path_chain :: "store \<Rightarrow> ptr \<Rightarrow> ptr list option" where
  "path_chain h p =
     (case parent (h p) of
        None \<Rightarrow> Some [p]
      | Some q \<Rightarrow> Option.bind (path_chain h q) (\<lambda>c. Some (p # c)))"

declare path_chain.simps [code]

definition path_legs :: "store \<Rightarrow> ptr list \<Rightarrow> (NodeID \<times> NodeID) list" where
  "path_legs h chain = zip (map (\<lambda>p. node (h p)) (tl chain)) (map (\<lambda>p. node (h p)) chain)"

definition saturation_cap :: "uint \<Rightarrow> Edge \<Rightarrow> int" where
  "saturation_cap max_saturation e =
     (if max_saturation = UINT_MAX then uint (Capacity e)
      else max 1 (uint (Capacity e) * uint max_saturation div 100))"

definition residual :: "uint \<Rightarrow> Edge \<Rightarrow> int" where
  "residual max_saturation e = saturation_cap max_saturation e - uint (Flow e)"

definition edge_update :: "(Edge \<Rightarrow> Edge) \<Rightarrow> NodeID \<times> NodeID \<Rightarrow> (NodeID \<Rightarrow> NodeID \<Rightarrow> Edge) \<Rightarrow>
    (NodeID \<Rightarrow> NodeID \<Rightarrow> Edge)" where
  "edge_update f e job = (case e of (from, to) \<Rightarrow> job(from := (job from)(to := f (job from to))))"

definition AddFlow_limit :: "state \<Rightarrow> (NodeID \<times> NodeID) list \<Rightarrow> uint \<Rightarrow> uint \<Rightarrow> uint" where
  "AddFlow_limit st legs want max_saturation =
     (if max_saturation = UINT_MAX then want
      else word_of_int
        (fold (\<lambda>(from, to) m. min m (max 0 (residual max_saturation (edges st from to))))
           legs (uint want)))"

definition AddFlow_apply :: "state \<Rightarrow> ptr list \<Rightarrow> (NodeID \<times> NodeID) list \<Rightarrow> uint \<Rightarrow>
    (uint \<times> state) result" where
  "AddFlow_apply st chain legs f =
     Some (Inr (f,
       st\<lparr>edges := fold (edge_update (\<lambda>e. e\<lparr>Flow := Flow e + f\<rparr>)) legs (edges st),
          heap := fold (\<lambda>p h. h(p := (h p)\<lparr>flow := flow (h p) + f\<rparr>)) chain (heap st)\<rparr>))"

definition AddFlow :: "state \<Rightarrow> ptr \<Rightarrow> uint \<Rightarrow> uint \<Rightarrow> (uint \<times> state) result" where
  "AddFlow st this want max_saturation =
     (case path_chain (heap st) this of
        None \<Rightarrow> None
      | Some chain \<Rightarrow>
          AddFlow_apply st chain (path_legs (heap st) chain)
            (AddFlow_limit st (path_legs (heap st) chain) want max_saturation))"

text \<open>
  Modelled from the spec: \<^verbatim>\<open>Edge::SatisfyDemand\<close> (\<^verbatim>\<open>linkgraphjob.h\<close>), the effect
  \<open>edge.unsatisfied_demand -= pushed\<close> of section 4.5.
\<close>

definition SatisfyDemand :: "uint \<Rightarrow> Edge \<Rightarrow> Edge" where
  "SatisfyDemand f e = e\<lparr>UnsatisfiedDemand := UnsatisfiedDemand e - f\<rparr>"

text \<open>
  \<^verbatim>\<open>MultiCommodityFlow::PushFlow\<close> (lines 315-323). The reference \<^verbatim>\<open>Edge &edge\<close> is the
  pair of node ids of the edge in the job. The quotient \<^verbatim>\<open>edge.Demand() / accuracy\<close> is
  undefined for \<open>accuracy = 0\<close>.
\<close>

definition PushFlow :: "state \<Rightarrow> NodeID \<times> NodeID \<Rightarrow> ptr \<Rightarrow> uint \<Rightarrow> uint \<Rightarrow> (uint \<times> state) result" where
  "PushFlow st edge path accuracy' max_saturation =
     (case edge of (from, to) \<Rightarrow>
      if \<not> UnsatisfiedDemand (edges st from to) > 0 then Some (Inl AssertionFailed)
      else if accuracy' = 0 then Some (Inl DivisionByZero)
      else
        (let want = Clamp (Demand (edges st from to) div accuracy') 1
                      (UnsatisfiedDemand (edges st from to))
         in bind (AddFlow st path want max_saturation)
              (\<lambda>(pushed, st1).
                 Some (Inr (pushed,
                   st1\<lparr>edges := edge_update (SatisfyDemand pushed) (from, to) (edges st1)\<rparr>)))))"

section \<open>The first pass\<close>

text \<open>
  The body of the loop over the destinations in \<^verbatim>\<open>MCF1stPass::MCF1stPass\<close> (lines
  465-481). Besides the new value of \<^verbatim>\<open>more_loops\<close> and the new state it returns the
  \<open>PushFlow\<close> call sites it went through, in order: the saturation-capped call of line
  472 and the call with \<^verbatim>\<open>UINT_MAX\<close> of line 479.
\<close>

datatype push_site = SaturationCapped | OneShotOverload

text \<open>
  The \<^verbatim>\<open>else if\<close> branch (lines 477-480). It is reached when the condition of line 472 is
  false: when the free capacity is not positive, and also when the capped push returned 0.
\<close>

definition MCF1stPass_else ::
    "state \<Rightarrow> NodeID \<times> NodeID \<Rightarrow> ptr \<Rightarrow> uint \<Rightarrow> push_site list \<Rightarrow> bool \<Rightarrow>
     (push_site list \<times> bool \<times> state) result" where
  "MCF1stPass_else st edge path accuracy' calls more_loops =
     (case edge of (source, dest) \<Rightarrow>
      if UnsatisfiedDemand (edges st source dest) = Demand (edges st source dest) \<and>
         free_capacity (heap st path) > INT_MIN
      then bind (PushFlow st edge path accuracy' UINT_MAX)
             (\<lambda>(pushed, st1). Some (Inr (calls @ [OneShotOverload], more_loops, st1)))
      else Some (Inr (calls, more_loops, st)))"

definition MCF1stPass_dest ::
    "uint \<Rightarrow> PathVector \<Rightarrow> NodeID \<Rightarrow> NodeID \<Rightarrow> bool \<times> state \<Rightarrow>
     (push_site list \<times> bool \<times> state) result" where
  "MCF1stPass_dest max_saturation paths source dest s =
     (case s of (more_loops, st) \<Rightarrow>
      if UnsatisfiedDemand (edges st source dest) > 0 then
        (case at paths dest of
           Inl e \<Rightarrow> Some (Inl e)
         | Inr None \<Rightarrow> Some (Inl AssertionFailed)
         | Inr (Some path) \<Rightarrow>
             if free_capacity (heap st path) > 0 then
               bind (PushFlow st (source, dest) path (accuracy st) max_saturation)
                 (\<lambda>(pushed, st1).
                    if pushed > 0 then
                      Some (Inr ([SaturationCapped],
                        more_loops \<or> UnsatisfiedDemand (edges st1 source dest) > 0, st1))
                    else MCF1stPass_else st1 (source, dest) path (accuracy st)
                           [SaturationCapped] more_loops)
             else MCF1stPass_else st (source, dest) path (accuracy st) [] more_loops)
      else Some (Inr ([], more_loops, st)))"

text \<open>
  The loop over the destinations (line 464); the call sites are collected with their
  destination.
\<close>

fun MCF1stPass_dests ::
    "uint \<Rightarrow> PathVector \<Rightarrow> NodeID \<Rightarrow> NodeID list \<Rightarrow> (NodeID \<times> push_site) list \<times> bool \<times> state \<Rightarrow>
     ((NodeID \<times> push_site) list \<times> bool \<times> state) result" where
  "MCF1stPass_dests max_saturation paths source [] s = Some (Inr s)"
| "MCF1stPass_dests max_saturation paths source (dest # dests) (trace, more_loops, st) =
     bind (MCF1stPass_dest max_saturation paths source dest (more_loops, st))
       (\<lambda>(calls, more_loops', st').
          MCF1stPass_dests max_saturation paths source dests
            (trace @ map (Pair dest) calls, more_loops', st'))"

text \<open>
  One source of the first pass up to the call of \<^verbatim>\<open>CleanupPaths\<close> (lines 462-482): the
  search with the distance annotation over the edges of the graph, then the loop over
  the destinations. \<open>out_edges from\<close> are the targets \<^verbatim>\<open>job[from].Begin()\<close> to
  \<^verbatim>\<open>job[from].End()\<close> point to, which the \<^verbatim>\<open>GraphEdgeIterator\<close> yields whatever the source.
\<close>

definition MCF1stPass_source ::
    "(NodeID \<Rightarrow> NodeID list) \<Rightarrow> uint \<Rightarrow> NodeID \<Rightarrow> bool \<times> state \<Rightarrow>
     ((NodeID \<times> push_site) list \<times> bool \<times> state \<times> PathVector) result" where
  "MCF1stPass_source out_edges max_saturation source s =
     (case s of (more_loops, st) \<Rightarrow>
      bind (Dijkstra DistanceAnnotation_IsBetter DistanceAnnotation_Comparator Fork
              (\<lambda>source_node from. out_edges from) max_saturation source st)
        (\<lambda>(st1, paths).
           bind (MCF1stPass_dests max_saturation paths source (nodes (Size st1))
                   ([], more_loops, st1))
             (\<lambda>(trace, more_loops', st2). Some (Inr (trace, more_loops', st2, paths)))))"

section \<open>Cleaning up the paths of a source\<close>

text \<open>
  \<^verbatim>\<open>MultiCommodityFlow::CleanupPaths\<close> (lines 284-304). The inner loop walks towards the
  root while the path carries no flow; the outer loop reads each entry of the vector as
  it is when the loop reaches it.
\<close>

partial_function (option) CleanupPaths_while ::
    "ptr option \<Rightarrow> ptr option \<Rightarrow> store \<times> PathVector \<Rightarrow> (store \<times> PathVector) result" where
  "CleanupPaths_while source path s =
     (case s of (h, paths) \<Rightarrow>
      (case path of
         None \<Rightarrow> Some (Inr (h, paths))
       | Some p \<Rightarrow>
           if path \<noteq> source \<and> flow (h p) = 0 then
             (if num_children (Detach h p p) = 0 then
                (if unat (node (Detach h p p)) < length paths then
                   CleanupPaths_while source (parent (h p))
                     (Detach h p, paths[unat (node (Detach h p p)) := None])
                 else Some (Inl OutOfRange))
              else CleanupPaths_while source (parent (h p)) (Detach h p, paths))
           else Some (Inr (h, paths))))"

declare CleanupPaths_while.simps [code]

fun CleanupPaths_for ::
    "ptr option \<Rightarrow> nat list \<Rightarrow> store \<times> PathVector \<Rightarrow> (store \<times> PathVector) result" where
  "CleanupPaths_for source [] s = Some (Inr s)"
| "CleanupPaths_for source (i # is) (h, paths) =
     (case paths ! i of
        None \<Rightarrow> CleanupPaths_for source is (h, paths)
      | Some p \<Rightarrow>
          bind (CleanupPaths_while source (Some p)
                  (if parent (h p) = source then Detach h p else h, paths))
            (CleanupPaths_for source is))"

definition CleanupPaths :: "NodeID \<Rightarrow> state \<times> PathVector \<Rightarrow> state result" where
  "CleanupPaths source_id s =
     (case s of (st, paths) \<Rightarrow>
      (case at paths source_id of
         Inl e \<Rightarrow> Some (Inl e)
       | Inr source \<Rightarrow>
           bind (CleanupPaths_for source [0..<length paths]
                   (heap st, paths[unat source_id := None]))
             (\<lambda>(h, paths'). Some (Inr (st\<lparr>heap := h\<rparr>)))))"

section \<open>The second pass\<close>

text \<open>The body of the loop over the destinations (lines 505-510).\<close>

definition MCF2ndPass_dest ::
    "PathVector \<Rightarrow> NodeID \<Rightarrow> NodeID \<Rightarrow> bool \<times> state \<Rightarrow> (bool \<times> state) result" where
  "MCF2ndPass_dest paths source dest s =
     (case s of (demand_left, st) \<Rightarrow>
      (case at paths dest of
         Inl e \<Rightarrow> Some (Inl e)
       | Inr path \<Rightarrow>
           if UnsatisfiedDemand (edges st source dest) > 0 then
             (case path of
                None \<Rightarrow> Some (Inl NullPointer)
              | Some p \<Rightarrow>
                  if free_capacity (heap st p) > INT_MIN then
                    bind (PushFlow st (source, dest) p (accuracy st) UINT_MAX)
                      (\<lambda>(pushed, st1).
                         Some (Inr (demand_left \<or> UnsatisfiedDemand (edges st1 source dest) > 0,
                                    st1)))
                  else Some (Inr (demand_left, st)))
           else Some (Inr (demand_left, st))))"

fun MCF2ndPass_dests ::
    "PathVector \<Rightarrow> NodeID \<Rightarrow> NodeID list \<Rightarrow> bool \<times> state \<Rightarrow> (bool \<times> state) result" where
  "MCF2ndPass_dests paths source [] s = Some (Inr s)"
| "MCF2ndPass_dests paths source (dest # dests) s =
     bind (MCF2ndPass_dest paths source dest s) (MCF2ndPass_dests paths source dests)"

text \<open>
  One source of the second pass (lines 503-512): the search with the capacity annotation
  and \<^verbatim>\<open>max_saturation = UINT_MAX\<close>, the loop over the destinations, the cleanup. The
  \<^verbatim>\<open>FlowEdgeIterator\<close> yields the next hops of the flow shares \<^verbatim>\<open>job[node].Flows()\<close>
  recorded for the source, a table the solver does not change and whose type is not
  among the sources: \<open>flow_edges source_node from\<close> is what it yields.
\<close>

definition MCF2ndPass_source ::
    "(int \<Rightarrow> uint \<Rightarrow> int) \<Rightarrow> (NodeID \<Rightarrow> NodeID \<Rightarrow> NodeID list) \<Rightarrow> NodeID \<Rightarrow> bool \<times> state \<Rightarrow>
     (bool \<times> state) result" where
  "MCF2ndPass_source ratio flow_edges source s =
     (case s of (demand_left, st) \<Rightarrow>
      bind (Dijkstra (CapacityAnnotation_IsBetter ratio) (CapacityAnnotation_Comparator ratio)
              Fork flow_edges UINT_MAX source st)
        (\<lambda>(st1, paths).
           bind (MCF2ndPass_dests paths source (nodes (Size st1)) (demand_left, st1))
             (\<lambda>(demand_left', st2).
                bind (CleanupPaths source (st2, paths))
                  (\<lambda>st3. Some (Inr (demand_left', st3))))))"

fun MCF2ndPass_sources ::
    "(int \<Rightarrow> uint \<Rightarrow> int) \<Rightarrow> (NodeID \<Rightarrow> NodeID \<Rightarrow> NodeID list) \<Rightarrow> NodeID list \<Rightarrow> bool \<times> state \<Rightarrow>
     (bool \<times> state) result" where
  "MCF2ndPass_sources ratio flow_edges [] s = Some (Inr s)"
| "MCF2ndPass_sources ratio flow_edges (source # sources) s =
     bind (MCF2ndPass_source ratio flow_edges source s)
       (MCF2ndPass_sources ratio flow_edges sources)"

text \<open>
  The driver loop \<^verbatim>\<open>while (demand_left)\<close> of \<^verbatim>\<open>MCF2ndPass::MCF2ndPass\<close> (lines 499-514):
  each round starts with \<^verbatim>\<open>demand_left = false\<close> and sweeps over all sources.
\<close>

partial_function (option) MCF2ndPass ::
    "(int \<Rightarrow> uint \<Rightarrow> int) \<Rightarrow> (NodeID \<Rightarrow> NodeID \<Rightarrow> NodeID list) \<Rightarrow> state \<Rightarrow> state result" where
  "MCF2ndPass ratio flow_edges st =
     (case MCF2ndPass_sources ratio flow_edges (nodes (Size st)) (False, st) of
        None \<Rightarrow> None
      | Some (Inl e) \<Rightarrow> Some (Inl e)
      | Some (Inr (demand_left, st')) \<Rightarrow>
          if demand_left then MCF2ndPass ratio flow_edges st' else Some (Inr st'))"

declare MCF2ndPass.simps [code]

text \<open>The total unsatisfied demand of a job.\<close>

definition total_unsatisfied :: "state \<Rightarrow> nat" where
  "total_unsatisfied st =
     (\<Sum>s\<in>set (nodes (Size st)). \<Sum>d\<in>set (nodes (Size st)).
        unat (UnsatisfiedDemand (edges st s d)))"

text \<open>
  The jobs the second pass is run on. The flow shares of a source are the links
  \<open>from \<rightarrow> to\<close> that its edge iterator yields, but for the links from a node to itself,
  which the search skips. A job is well formed when its accuracy is not 0 and, for each
  source among its nodes, the flow shares are acyclic, and each share that leaves a node
  of the job leads to a node of the job over an edge of finite distance.
\<close>

definition share_links :: "(NodeID \<Rightarrow> NodeID \<Rightarrow> NodeID list) \<Rightarrow> NodeID \<Rightarrow> (NodeID \<times> NodeID) set" where
  "share_links flow_edges source_node =
     {(from, to). to \<in> set (flow_edges source_node from) \<and> to \<noteq> from}"

definition well_formed :: "(NodeID \<Rightarrow> NodeID \<Rightarrow> NodeID list) \<Rightarrow> state \<Rightarrow> bool" where
  "well_formed flow_edges st =
     (accuracy st \<noteq> 0 \<and>
      (\<forall>source_node \<in> set (nodes (Size st)).
         acyclic (share_links flow_edges source_node) \<and>
         (\<forall>from \<in> set (nodes (Size st)). \<forall>to. (from, to) \<in> share_links flow_edges source_node \<longrightarrow>
            unat to < Size st \<and> Distance (edges st from to) < UINT_MAX)))"

text \<open>
  Notions for the proof that the second pass returns on such a job: the number of nodes
  below and above a node in a relation; the heap of a search that has allocated the
  paths of the \<open>sz\<close> nodes from the address \<open>b\<close> on, where the path of node \<open>n\<close> is at
  \<open>b + n\<close> and each parent pointer follows a link of \<open>E\<close> backwards inside this block; and
  a path vector that holds paths of this block only.
\<close>

definition below :: "('a \<times> 'a) set \<Rightarrow> 'a \<Rightarrow> nat" where
  "below r x = card {y. (x, y) \<in> r\<^sup>+}"

definition above :: "('a \<times> 'a) set \<Rightarrow> 'a \<Rightarrow> nat" where
  "above r x = card {y. (y, x) \<in> r\<^sup>+}"

definition search_heap :: "(NodeID \<times> NodeID) set \<Rightarrow> ptr \<Rightarrow> nat \<Rightarrow> store \<Rightarrow> bool" where
  "search_heap E b sz h =
     ((\<forall>n < sz. node (h (b + n)) = of_nat n) \<and>
      (\<forall>n < sz. \<forall>q. parent (h (b + n)) = Some q \<longrightarrow>
         (\<exists>m < sz. q = b + m) \<and> (node (h q), node (h (b + n))) \<in> E))"

definition search_paths :: "ptr \<Rightarrow> nat \<Rightarrow> PathVector \<Rightarrow> bool" where
  "search_paths b sz paths =
     (length paths = sz \<and> (\<forall>i < sz. paths ! i = None \<or> (\<exists>n < sz. paths ! i = Some (b + n))))"

section \<open>Cycle elimination\<close>

text \<open>
  Modelled from the spec: \<^verbatim>\<open>Path::ReduceFlow\<close>, the one-argument \<^verbatim>\<open>Path::AddFlow\<close> and
  \<^verbatim>\<open>Edge::RemoveFlow\<close> (\<^verbatim>\<open>linkgraphjob.h\<close>, not among the sources): they subtract from,
  or add to, the flow of this path or of this edge only (sections 4.1, 4.6 and 6 of the
  specification).
\<close>

definition ReduceFlow :: "uint \<Rightarrow> Path \<Rightarrow> Path" where
  "ReduceFlow f p = p\<lparr>flow := flow p - f\<rparr>"

definition Path_AddFlow :: "uint \<Rightarrow> Path \<Rightarrow> Path" where
  "Path_AddFlow f p = p\<lparr>flow := flow p + f\<rparr>"

definition RemoveFlow :: "uint \<Rightarrow> Edge \<Rightarrow> Edge" where
  "RemoveFlow f e = e\<lparr>Flow := Flow e - f\<rparr>"

text \<open>
  \<^verbatim>\<open>MCF1stPass::FindCycleFlow\<close> (lines 331-340): the \<^verbatim>\<open>do ... while\<close> loop, entered with
  \<^verbatim>\<open>flow = UINT_MAX\<close> and \<^verbatim>\<open>cycle_end = cycle_begin\<close>.
\<close>

partial_function (option) FindCycleFlow_loop ::
    "store \<Rightarrow> PathVector \<Rightarrow> ptr \<Rightarrow> uint \<Rightarrow> ptr \<Rightarrow> uint result" where
  "FindCycleFlow_loop h path cycle_end cycle_flow cycle_begin =
     (case at path (node (h cycle_begin)) of
        Inl e \<Rightarrow> Some (Inl e)
      | Inr None \<Rightarrow> Some (Inl NullPointer)
      | Inr (Some next) \<Rightarrow>
          if next \<noteq> cycle_end
          then FindCycleFlow_loop h path cycle_end (min cycle_flow (flow (h cycle_begin))) next
          else Some (Inr (min cycle_flow (flow (h cycle_begin)))))"

declare FindCycleFlow_loop.simps [code]

definition FindCycleFlow :: "store \<Rightarrow> PathVector \<Rightarrow> ptr \<Rightarrow> uint result" where
  "FindCycleFlow h path cycle_begin = FindCycleFlow_loop h path cycle_begin UINT_MAX cycle_begin"

text \<open>\<^verbatim>\<open>MCF1stPass::EliminateCycle\<close> (lines 348-358).\<close>

partial_function (option) EliminateCycle_loop ::
    "PathVector \<Rightarrow> ptr \<Rightarrow> uint \<Rightarrow> ptr \<Rightarrow> state \<Rightarrow> state result" where
  "EliminateCycle_loop path cycle_end cycle_flow cycle_begin st =
     (let prev = node (heap st cycle_begin);
          h = (heap st)(cycle_begin := ReduceFlow cycle_flow (heap st cycle_begin))
      in case at path (node (h cycle_begin)) of
           Inl e \<Rightarrow> Some (Inl e)
         | Inr None \<Rightarrow> Some (Inl NullPointer)
         | Inr (Some next) \<Rightarrow>
             (let st' = st\<lparr>heap := h,
                           edges := edge_update (RemoveFlow cycle_flow) (prev, node (h next))
                                      (edges st)\<rparr>
              in if next \<noteq> cycle_end
                 then EliminateCycle_loop path cycle_end cycle_flow next st'
                 else Some (Inr st')))"

declare EliminateCycle_loop.simps [code]

definition EliminateCycle :: "PathVector \<Rightarrow> ptr \<Rightarrow> uint \<Rightarrow> state \<Rightarrow> state result" where
  "EliminateCycle path cycle_begin cycle_flow st =
     EliminateCycle_loop path cycle_begin cycle_flow cycle_begin st"

text \<open>
  The cycle a walk of these loops follows: from \<open>cycle_begin\<close> the path vector leads
  through the paths \<open>rest\<close>, none of them \<open>cycle_end\<close>, and then to \<open>cycle_end\<close>; and the
  edges \<^verbatim>\<open>job[prev][cycle_begin->GetNode()]\<close> of a cycle, from the node of each path to
  the node of the next one.
\<close>

fun cycle_walk :: "store \<Rightarrow> PathVector \<Rightarrow> ptr \<Rightarrow> ptr list \<Rightarrow> ptr \<Rightarrow> bool" where
  "cycle_walk h path cycle_begin [] cycle_end =
     (at path (node (h cycle_begin)) = Inr (Some cycle_end))"
| "cycle_walk h path cycle_begin (next # rest) cycle_end =
     (at path (node (h cycle_begin)) = Inr (Some next) \<and> next \<noteq> cycle_end \<and>
      cycle_walk h path next rest cycle_end)"

definition cycle_legs :: "store \<Rightarrow> ptr list \<Rightarrow> (NodeID \<times> NodeID) list" where
  "cycle_legs h cycle = zip (map (\<lambda>p. node (h p)) cycle) (map (\<lambda>p. node (h p)) (rotate1 cycle))"


text \<open>
  \<^verbatim>\<open>MCF1stPass::EliminateCycles(path, origin_id, next_id)\<close> (lines 369-426). The map
  \<^verbatim>\<open>PathViaMap\<close> is the list of its entries in the order of the keys. The first loop
  (lines 382-395) sums the paths of \<open>origin_id\<close> with the same next hop into the first
  of them.
\<close>

type_synonym PathViaMap = "(NodeID \<times> ptr) list"

fun via_insert :: "NodeID \<Rightarrow> ptr \<Rightarrow> PathViaMap \<Rightarrow> PathViaMap" where
  "via_insert k v [] = [(k, v)]"
| "via_insert k v ((k', v') # m) =
     (if k < k' then (k, v) # (k', v') # m
      else if k = k' then (k, v) # m
      else (k', v') # via_insert k v m)"

fun EliminateCycles_summarize ::
    "NodeID \<Rightarrow> ptr list \<Rightarrow> PathViaMap \<times> store \<Rightarrow> PathViaMap \<times> store" where
  "EliminateCycles_summarize origin_id [] s = s"
| "EliminateCycles_summarize origin_id (new_child # paths) (next_hops, h) =
     (if origin (h new_child) = origin_id then
        (case map_of next_hops (node (h new_child)) of
           None \<Rightarrow>
             EliminateCycles_summarize origin_id paths
               (via_insert (node (h new_child)) new_child next_hops, h)
         | Some child \<Rightarrow>
             EliminateCycles_summarize origin_id paths
               (next_hops,
                (h(child := Path_AddFlow (flow (h new_child)) (h child)))
                  (new_child := ReduceFlow (flow (h new_child))
                     ((h(child := Path_AddFlow (flow (h new_child)) (h child))) new_child))))
      else EliminateCycles_summarize origin_id paths (next_hops, h))"

text \<open>
  The second loop (lines 398-407), over the entries of the map: \<open>search\<close> is the recursive
  call \<^verbatim>\<open>this->EliminateCycles(path, origin_id, _)\<close>.
\<close>

fun EliminateCycles_children ::
    "(NodeID \<Rightarrow> state \<times> PathVector \<Rightarrow> (bool \<times> state \<times> PathVector) result) \<Rightarrow> NodeID \<Rightarrow>
     PathViaMap \<Rightarrow> bool \<times> state \<times> PathVector \<Rightarrow> (bool \<times> state \<times> PathVector) result" where
  "EliminateCycles_children search next_id [] s = Some (Inr s)"
| "EliminateCycles_children search next_id ((via, child) # next_hops) (found, st, path) =
     (if flow (heap st child) > 0 then
        bind (search (node (heap st child)) (st, path[unat next_id := Some child]))
          (\<lambda>(found', st', path').
             EliminateCycles_children search next_id next_hops (found' \<or> found, st', path'))
      else EliminateCycles_children search next_id next_hops (found, st, path))"

text \<open>
  The recursion, bounded by its depth: \<open>None\<close> when the bound is reached.
  \<open>invalid_path\<close> is the address of the static sentinel object.
\<close>

primrec EliminateCycles ::
    "nat \<Rightarrow> ptr \<Rightarrow> NodeID \<Rightarrow> NodeID \<Rightarrow> state \<times> PathVector \<Rightarrow> (bool \<times> state \<times> PathVector) result" where
  "EliminateCycles 0 invalid_path origin_id next_id s = None"
| "EliminateCycles (Suc depth) invalid_path origin_id next_id s =
     (case s of (st, path) \<Rightarrow>
      (case at path next_id of
         Inl e \<Rightarrow> Some (Inl e)
       | Inr at_next_pos \<Rightarrow>
           if at_next_pos = Some invalid_path then Some (Inr (False, st, path))
           else
             (case at_next_pos of
                None \<Rightarrow>
                  (case EliminateCycles_summarize origin_id (Paths st next_id) ([], heap st) of
                     (next_hops, h) \<Rightarrow>
                       bind (EliminateCycles_children
                               (EliminateCycles depth invalid_path origin_id) next_id next_hops
                               (False, st\<lparr>heap := h\<rparr>, path))
                         (\<lambda>(found, st', path').
                            Some (Inr (found, st',
                              path'[unat next_id := (if found then None else Some invalid_path)]))))
              | Some p \<Rightarrow>
                  bind (FindCycleFlow (heap st) path p)
                    (\<lambda>cycle_flow.
                       if cycle_flow > 0 then
                         bind (EliminateCycle path p cycle_flow st)
                           (\<lambda>st'. Some (Inr (True, st', path)))
                       else Some (Inr (False, st, path))))))"







text \<open>\<^verbatim>\<open>MCF1stPass::EliminateCycles()\<close> (lines 433-445).\<close>

fun EliminateCycles_nodes ::
    "nat \<Rightarrow> ptr \<Rightarrow> NodeID list \<Rightarrow> bool \<times> state \<Rightarrow> (bool \<times> state) result" where
  "EliminateCycles_nodes depth invalid_path [] s = Some (Inr s)"
| "EliminateCycles_nodes depth invalid_path (n # ns) (cycles_found, st) =
     bind (EliminateCycles depth invalid_path n n (st, replicate (Size st) None))
       (\<lambda>(found, st', path').
          EliminateCycles_nodes depth invalid_path ns (cycles_found \<or> found, st'))"

definition EliminateCycles_all :: "nat \<Rightarrow> ptr \<Rightarrow> state \<Rightarrow> (bool \<times> state) result" where
  "EliminateCycles_all depth invalid_path st =
     EliminateCycles_nodes depth invalid_path (nodes (Size st)) (False, st)"

section \<open>Example jobs\<close>

text \<open>
  Two nodes, one link of capacity 10 from node 0 to node 1 with a demand of 50, and the
  two paths of a search from node 0 under a saturation of 80 percent.
\<close>

definition two_node_job :: state where
  "two_node_job =
     \<lparr>Size = 2, accuracy = 1,
      edges = (\<lambda>from to. \<lparr>Distance = (if from = 0 \<and> to = 1 then 10 else UINT_MAX),
                             Capacity = (if from = 0 \<and> to = 1 then 10 else 0), Flow = 0,
                             Demand = (if from = 0 \<and> to = 1 then 50 else 0),
                             UnsatisfiedDemand = (if from = 0 \<and> to = 1 then 50 else 0)\<rparr>),
      Paths = (\<lambda>n. []),
      heap = (\<lambda>p. if p = 1
                  then \<lparr>distance = 11, capacity = 8, free_capacity = 8, flow = 0, node = 1,
                        origin = 0, num_children = 0, parent = Some 0\<rparr>
                  else (Path_new 0 True)\<lparr>num_children := 1\<rparr>),
      brk = 2\<rparr>"

text \<open>
  Three nodes in a row: links of capacity 10 from node 0 to node 1 and from node 1 to
  node 2, a demand of 10 from node 0 to node 1 and of 5 from node 0 to node 2, nothing
  assigned yet and accuracy 1.
\<close>

definition three_node_job :: state where
  "three_node_job =
     \<lparr>Size = 3, accuracy = 1,
      edges = (\<lambda>from to.
         if from = 0 \<and> to = 1
         then \<lparr>Distance = 1, Capacity = 10, Flow = 0, Demand = 10, UnsatisfiedDemand = 10\<rparr>
         else if from = 1 \<and> to = 2
         then \<lparr>Distance = 1, Capacity = 10, Flow = 0, Demand = 0, UnsatisfiedDemand = 0\<rparr>
         else if from = 0 \<and> to = 2
         then \<lparr>Distance = UINT_MAX, Capacity = 0, Flow = 0, Demand = 5, UnsatisfiedDemand = 5\<rparr>
         else \<lparr>Distance = UINT_MAX, Capacity = 0, Flow = 0, Demand = 0, UnsatisfiedDemand = 0\<rparr>),
      Paths = (\<lambda>n. []),
      heap = (\<lambda>p. Path_new INVALID_NODE False),
      brk = 0\<rparr>"

definition three_node_links :: "NodeID \<Rightarrow> NodeID list" where
  "three_node_links from = (if from = 0 then [1] else if from = 1 then [2] else [])"

text \<open>
  Two nodes with a link in each direction. For the origin 0, two parallel paths of flows
  5 and 4 lead from node 0 to node 1 (at the addresses 0 and 3) and a path of flow 3 leads
  back from node 1 to node 0 (at the address 1); the sentinel of the cycle search is at
  the address 2.
\<close>

definition cycle_job :: state where
  "cycle_job =
     \<lparr>Size = 2, accuracy = 1,
      edges = (\<lambda>from to.
         if from = 0 \<and> to = 1
         then \<lparr>Distance = 1, Capacity = 10, Flow = 9, Demand = 0, UnsatisfiedDemand = 0\<rparr>
         else if from = 1 \<and> to = 0
         then \<lparr>Distance = 1, Capacity = 10, Flow = 3, Demand = 0, UnsatisfiedDemand = 0\<rparr>
         else \<lparr>Distance = UINT_MAX, Capacity = 0, Flow = 0, Demand = 0, UnsatisfiedDemand = 0\<rparr>),
      Paths = (\<lambda>n. if n = 0 then [0, 3] else if n = 1 then [1] else []),
      heap = (\<lambda>p.
         if p = 0
         then \<lparr>distance = 1, capacity = 10, free_capacity = 1, flow = 5, node = 1, origin = 0,
               num_children = 0, parent = None\<rparr>
         else if p = 1
         then \<lparr>distance = 2, capacity = 10, free_capacity = 7, flow = 3, node = 0, origin = 0,
               num_children = 0, parent = None\<rparr>
         else if p = 3
         then \<lparr>distance = 1, capacity = 10, free_capacity = 1, flow = 4, node = 1, origin = 0,
               num_children = 0, parent = None\<rparr>
         else Path_new INVALID_NODE True),
      brk = 4\<rparr>"


text \<open>
  Modelled from the spec: the capacity ratio of section 4.2, \<^verbatim>\<open>free * 16 / total\<close> with the
  truncating division of C, and the extreme values for a total of 0. With it, the flow
  shares of the two-node job: the origin 0 uses the link from node 0 to node 1.
\<close>

definition capacity_ratio :: "int \<Rightarrow> uint \<Rightarrow> int" where
  "capacity_ratio free total' =
     (if total' = 0 then (if free > 0 then INT_MAX else INT_MIN)
      else sgn free * (\<bar>free\<bar> * 16 div uint total'))"

definition two_node_shares :: "NodeID \<Rightarrow> NodeID \<Rightarrow> NodeID list" where
  "two_node_shares source_node from = (if source_node = 0 \<and> from = 0 then [1] else [])"

section \<open>Results\<close>

subsection \<open>Results of computations\<close>

lemma bind_simps [simp]:
  "bind None f = None"
  "bind (Some (Inl e)) f = Some (Inl e)"
  "bind (Some (Inr x)) f = f x"
  by (simp_all add: bind_def)

lemma bind_eq_Some_Inr:
  "bind r f = Some (Inr y) \<longleftrightarrow> (\<exists>x. r = Some (Inr x) \<and> f x = Some (Inr y))"
  by (auto simp: bind_def split: option.splits sum.splits)


subsection \<open>Distance ranking\<close>

lemma less_UINT_MAX: "(x < UINT_MAX) = (x \<noteq> UINT_MAX)"
  using unsigned_less [of x, where 'a = nat] by (auto simp: UINT_MAX_def word_less_nat_alt word_unat_eq_iff)

lemma DistanceAnnotation_IsBetter_no_wrap:
  "unat (distance base) + unat dist < 2 ^ 32 \<Longrightarrow>
   (distance base + dist < distance this) =
   (unat (distance base) + unat dist < unat (distance this))"
  by (simp add: word_less_nat_alt unat_word_ariths)

text \<open>
  C2. \<^verbatim>\<open>DistanceAnnotation::IsBetter(base, cap, free_cap, dist)\<close> follows the four-case
  rule: false when \<open>base\<close> is disconnected; else true when the annotation itself is
  disconnected; else, when the new edge and \<open>base\<close> both have free capacity, the distance
  comparison if the annotation has free capacity and true if not; and in the remaining
  case false if the annotation has free capacity and the distance comparison if not.
  The sum \<open>base.distance + dist\<close> is the program's unsigned sum.
\<close>

theorem DistanceAnnotation_IsBetter_cases:
  "(distance base = UINT_MAX \<longrightarrow>
      \<not> DistanceAnnotation_IsBetter this base cap free_cap dist) \<and>
   (distance base \<noteq> UINT_MAX \<and> distance this = UINT_MAX \<longrightarrow>
      DistanceAnnotation_IsBetter this base cap free_cap dist) \<and>
   (distance base \<noteq> UINT_MAX \<and> distance this \<noteq> UINT_MAX \<and>
    free_cap > 0 \<and> free_capacity base > 0 \<and> free_capacity this > 0 \<longrightarrow>
      DistanceAnnotation_IsBetter this base cap free_cap dist =
        (distance base + dist < distance this)) \<and>
   (distance base \<noteq> UINT_MAX \<and> distance this \<noteq> UINT_MAX \<and>
    free_cap > 0 \<and> free_capacity base > 0 \<and> \<not> free_capacity this > 0 \<longrightarrow>
      DistanceAnnotation_IsBetter this base cap free_cap dist) \<and>
   (distance base \<noteq> UINT_MAX \<and> distance this \<noteq> UINT_MAX \<and>
    \<not> (free_cap > 0 \<and> free_capacity base > 0) \<and> free_capacity this > 0 \<longrightarrow>
      \<not> DistanceAnnotation_IsBetter this base cap free_cap dist) \<and>
   (distance base \<noteq> UINT_MAX \<and> distance this \<noteq> UINT_MAX \<and>
    \<not> (free_cap > 0 \<and> free_capacity base > 0) \<and> \<not> free_capacity this > 0 \<longrightarrow>
      DistanceAnnotation_IsBetter this base cap free_cap dist =
        (distance base + dist < distance this))"
  by (simp add: DistanceAnnotation_IsBetter_def)

theorem DistanceAnnotation_IsBetter_cases_witness:
  "\<not> DistanceAnnotation_IsBetter
       \<lparr>distance = 9, capacity = 10, free_capacity = 3, flow = 0, node = 2, origin = 0,
        num_children = 0, parent = None\<rparr>
       \<lparr>distance = UINT_MAX, capacity = 0, free_capacity = INT_MIN, flow = 0, node = 1,
        origin = INVALID_NODE, num_children = 0, parent = None\<rparr> 10 4 3 \<and>
   DistanceAnnotation_IsBetter
       \<lparr>distance = UINT_MAX, capacity = 0, free_capacity = INT_MIN, flow = 0, node = 2,
        origin = INVALID_NODE, num_children = 0, parent = None\<rparr>
       \<lparr>distance = 2, capacity = 10, free_capacity = 5, flow = 0, node = 1, origin = 0,
        num_children = 0, parent = None\<rparr> 10 4 3 \<and>
   DistanceAnnotation_IsBetter
       \<lparr>distance = 9, capacity = 10, free_capacity = 3, flow = 0, node = 2, origin = 0,
        num_children = 0, parent = None\<rparr>
       \<lparr>distance = 2, capacity = 10, free_capacity = 5, flow = 0, node = 1, origin = 0,
        num_children = 0, parent = None\<rparr> 10 4 3 \<and>
   DistanceAnnotation_IsBetter
       \<lparr>distance = 4, capacity = 10, free_capacity = 0, flow = 0, node = 2, origin = 0,
        num_children = 0, parent = None\<rparr>
       \<lparr>distance = 2, capacity = 10, free_capacity = 5, flow = 0, node = 1, origin = 0,
        num_children = 0, parent = None\<rparr> 10 4 3 \<and>
   \<not> DistanceAnnotation_IsBetter
       \<lparr>distance = 9, capacity = 10, free_capacity = 3, flow = 0, node = 2, origin = 0,
        num_children = 0, parent = None\<rparr>
       \<lparr>distance = 2, capacity = 10, free_capacity = 5, flow = 0, node = 1, origin = 0,
        num_children = 0, parent = None\<rparr> 10 (- 1) 3 \<and>
   \<not> DistanceAnnotation_IsBetter
       \<lparr>distance = 4, capacity = 10, free_capacity = - 2, flow = 0, node = 2, origin = 0,
        num_children = 0, parent = None\<rparr>
       \<lparr>distance = 2, capacity = 10, free_capacity = 5, flow = 0, node = 1, origin = 0,
        num_children = 0, parent = None\<rparr> 10 0 3"
  using
    DistanceAnnotation_IsBetter_cases [where cap = 10 and free_cap = 4 and dist = 3 and
       base = "\<lparr>distance = UINT_MAX, capacity = 0, free_capacity = INT_MIN, flow = 0, node = 1,
        origin = INVALID_NODE, num_children = 0, parent = None\<rparr>" and
       this = "\<lparr>distance = 9, capacity = 10, free_capacity = 3, flow = 0, node = 2, origin = 0,
        num_children = 0, parent = None\<rparr>"]
    DistanceAnnotation_IsBetter_cases [where cap = 10 and free_cap = 4 and dist = 3 and
       base = "\<lparr>distance = 2, capacity = 10, free_capacity = 5, flow = 0, node = 1, origin = 0,
        num_children = 0, parent = None\<rparr>" and
       this = "\<lparr>distance = UINT_MAX, capacity = 0, free_capacity = INT_MIN, flow = 0, node = 2,
        origin = INVALID_NODE, num_children = 0, parent = None\<rparr>"]
    DistanceAnnotation_IsBetter_cases [where cap = 10 and free_cap = 4 and dist = 3 and
       base = "\<lparr>distance = 2, capacity = 10, free_capacity = 5, flow = 0, node = 1, origin = 0,
        num_children = 0, parent = None\<rparr>" and
       this = "\<lparr>distance = 9, capacity = 10, free_capacity = 3, flow = 0, node = 2, origin = 0,
        num_children = 0, parent = None\<rparr>"]
    DistanceAnnotation_IsBetter_cases [where cap = 10 and free_cap = 4 and dist = 3 and
       base = "\<lparr>distance = 2, capacity = 10, free_capacity = 5, flow = 0, node = 1, origin = 0,
        num_children = 0, parent = None\<rparr>" and
       this = "\<lparr>distance = 4, capacity = 10, free_capacity = 0, flow = 0, node = 2, origin = 0,
        num_children = 0, parent = None\<rparr>"]
    DistanceAnnotation_IsBetter_cases [where cap = 10 and free_cap = "- 1" and dist = 3 and
       base = "\<lparr>distance = 2, capacity = 10, free_capacity = 5, flow = 0, node = 1, origin = 0,
        num_children = 0, parent = None\<rparr>" and
       this = "\<lparr>distance = 9, capacity = 10, free_capacity = 3, flow = 0, node = 2, origin = 0,
        num_children = 0, parent = None\<rparr>"]
    DistanceAnnotation_IsBetter_cases [where cap = 10 and free_cap = 0 and dist = 3 and
       base = "\<lparr>distance = 2, capacity = 10, free_capacity = 5, flow = 0, node = 1, origin = 0,
        num_children = 0, parent = None\<rparr>" and
       this = "\<lparr>distance = 4, capacity = 10, free_capacity = - 2, flow = 0, node = 2, origin = 0,
        num_children = 0, parent = None\<rparr>"]
  by (simp add: UINT_MAX_def)

subsection \<open>Capacity ranking\<close>

text \<open>
  C3. \<^verbatim>\<open>CapacityAnnotation::IsBetter(base, cap, free_cap, dist)\<close> is true exactly when
  \<open>min_cap_ratio\<close> exceeds this path's capacity ratio, or equals it while \<open>base\<close> is connected
  and \<open>base.distance + dist < this.distance\<close> (the program's unsigned sum), where
  \<open>min_cap_ratio\<close> is the capacity ratio of \<open>min(base.free_capacity, free_cap)\<close> and
  \<open>min(base.capacity, cap)\<close>. It holds for every implementation of the ratio.
\<close>

theorem CapacityAnnotation_IsBetter_iff:
  "CapacityAnnotation_IsBetter ratio this base cap free_cap dist =
     (let min_cap_ratio = ratio (min (free_capacity base) free_cap) (min (capacity base) cap)
      in min_cap_ratio > GetCapacityRatio ratio this \<or>
         (min_cap_ratio = GetCapacityRatio ratio this \<and> distance base < UINT_MAX \<and>
          distance base + dist < distance this))"
  by (auto simp: CapacityAnnotation_IsBetter_def Let_def less_UINT_MAX)

theorem CapacityAnnotation_IsBetter_iff_witness:
  "CapacityAnnotation_IsBetter (\<lambda>free total. free * 16 div int (unat (max total 1)))
       \<lparr>distance = 9, capacity = 10, free_capacity = 5, flow = 0, node = 2, origin = 0,
        num_children = 0, parent = None\<rparr>
       \<lparr>distance = 2, capacity = 20, free_capacity = 12, flow = 0, node = 1, origin = 0,
        num_children = 0, parent = None\<rparr> 10 5 3 \<and>
   \<not> CapacityAnnotation_IsBetter (\<lambda>free total. free * 16 div int (unat (max total 1)))
       \<lparr>distance = 9, capacity = 10, free_capacity = 5, flow = 0, node = 2, origin = 0,
        num_children = 0, parent = None\<rparr>
       \<lparr>distance = 2, capacity = 20, free_capacity = 12, flow = 0, node = 1, origin = 0,
        num_children = 0, parent = None\<rparr> 10 4 3 \<and>
   CapacityAnnotation_IsBetter (\<lambda>free total. free * 16 div int (unat (max total 1)))
       \<lparr>distance = 9, capacity = 10, free_capacity = 5, flow = 0, node = 2, origin = 0,
        num_children = 0, parent = None\<rparr>
       \<lparr>distance = 2, capacity = 20, free_capacity = 12, flow = 0, node = 1, origin = 0,
        num_children = 0, parent = None\<rparr> 10 6 3"
  using
    CapacityAnnotation_IsBetter_iff [where cap = 10 and free_cap = 5 and dist = 3 and
       ratio = "\<lambda>free total. free * 16 div int (unat (max total 1))" and
       base = "\<lparr>distance = 2, capacity = 20, free_capacity = 12, flow = 0, node = 1, origin = 0,
        num_children = 0, parent = None\<rparr>" and
       this = "\<lparr>distance = 9, capacity = 10, free_capacity = 5, flow = 0, node = 2, origin = 0,
        num_children = 0, parent = None\<rparr>"]
    CapacityAnnotation_IsBetter_iff [where cap = 10 and free_cap = 4 and dist = 3 and
       ratio = "\<lambda>free total. free * 16 div int (unat (max total 1))" and
       base = "\<lparr>distance = 2, capacity = 20, free_capacity = 12, flow = 0, node = 1, origin = 0,
        num_children = 0, parent = None\<rparr>" and
       this = "\<lparr>distance = 9, capacity = 10, free_capacity = 5, flow = 0, node = 2, origin = 0,
        num_children = 0, parent = None\<rparr>"]
    CapacityAnnotation_IsBetter_iff [where cap = 10 and free_cap = 6 and dist = 3 and
       ratio = "\<lambda>free total. free * 16 div int (unat (max total 1))" and
       base = "\<lparr>distance = 2, capacity = 20, free_capacity = 12, flow = 0, node = 1, origin = 0,
        num_children = 0, parent = None\<rparr>" and
       this = "\<lparr>distance = 9, capacity = 10, free_capacity = 5, flow = 0, node = 2, origin = 0,
        num_children = 0, parent = None\<rparr>"]
  by (simp add: UINT_MAX_def GetCapacityRatio_def)

subsection \<open>The frontier comparators\<close>

text \<open>
  C5. For two distinct annotation objects with different node ids, exactly one of
  \<open>comp(x, y)\<close> and \<open>comp(y, x)\<close> holds, for both comparators; with equal annotation values
  the distance comparator puts the smaller node id first and the capacity comparator the
  larger one; and \<open>comp(x, x)\<close> is false. So two such objects are never equivalent
  (neither before the other).
\<close>

theorem Comparators_strict:
  "(x \<noteq> y \<and> node (h x) \<noteq> node (h y) \<longrightarrow>
      DistanceAnnotation_Comparator h x y \<noteq> DistanceAnnotation_Comparator h y x \<and>
      CapacityAnnotation_Comparator ratio h x y \<noteq> CapacityAnnotation_Comparator ratio h y x \<and>
      (distance (h x) = distance (h y) \<longrightarrow>
         DistanceAnnotation_Comparator h x y = (node (h x) < node (h y))) \<and>
      (GetCapacityRatio ratio (h x) = GetCapacityRatio ratio (h y) \<longrightarrow>
         CapacityAnnotation_Comparator ratio h x y = (node (h x) > node (h y)))) \<and>
   \<not> DistanceAnnotation_Comparator h x x \<and>
   \<not> CapacityAnnotation_Comparator ratio h x x"
  by (auto simp: DistanceAnnotation_Comparator_def CapacityAnnotation_Comparator_def Greater_def)

theorem Comparators_strict_witness:
  "DistanceAnnotation_Comparator
      (\<lambda>p. \<lparr>distance = 7, capacity = 10, free_capacity = 5, flow = 0, node = of_nat p,
            origin = 0, num_children = 0, parent = None\<rparr>) 1 2 \<and>
   \<not> DistanceAnnotation_Comparator
      (\<lambda>p. \<lparr>distance = 7, capacity = 10, free_capacity = 5, flow = 0, node = of_nat p,
            origin = 0, num_children = 0, parent = None\<rparr>) 2 1 \<and>
   \<not> CapacityAnnotation_Comparator (\<lambda>free total. free * 16 div int (unat (max total 1)))
      (\<lambda>p. \<lparr>distance = 7, capacity = 10, free_capacity = 5, flow = 0, node = of_nat p,
            origin = 0, num_children = 0, parent = None\<rparr>) 1 2 \<and>
   CapacityAnnotation_Comparator (\<lambda>free total. free * 16 div int (unat (max total 1)))
      (\<lambda>p. \<lparr>distance = 7, capacity = 10, free_capacity = 5, flow = 0, node = of_nat p,
            origin = 0, num_children = 0, parent = None\<rparr>) 2 1"
  using
    Comparators_strict [where x = 1 and y = 2 and
       ratio = "\<lambda>free total. free * 16 div int (unat (max total 1))" and
       h = "\<lambda>p. \<lparr>distance = 7, capacity = 10, free_capacity = 5, flow = 0, node = of_nat p,
            origin = 0, num_children = 0, parent = None\<rparr>"]
  by (simp add: GetCapacityRatio_def DistanceAnnotation_Comparator_def
      CapacityAnnotation_Comparator_def Greater_def)

subsection \<open>Scaling of the capacity\<close>

lemma Dijkstra_capacity_unat:
  "max_saturation \<noteq> UINT_MAX \<Longrightarrow>
   unat (Dijkstra_capacity max_saturation c) =
     max 1 ((unat c * unat max_saturation) mod 2 ^ 32 div 100)"
  apply (simp add: Dijkstra_capacity_def Let_def unat_div unat_word_ariths max_def)
  apply (simp add: unat_eq_0[symmetric] unat_div unat_word_ariths)
  done

text \<open>
  C10. The scaled capacity is computed in 32-bit unsigned arithmetic. When the product
  \<open>capacity * max_saturation\<close> is below \<open>2^32\<close> the result is
  \<open>max(1, capacity * max_saturation div 100)\<close>; in general the product is first reduced
  modulo \<open>2^32\<close>; and there are inputs whose product is at least \<open>2^32\<close> for which the
  result is 1 although the unwrapped quotient is 42949673. (The scaling is the branch
  \<open>max_saturation \<noteq> UINT_MAX\<close>; otherwise the capacity is passed on unscaled.)
\<close>

theorem Dijkstra_capacity_scaling:
  "(max_saturation \<noteq> UINT_MAX \<and> unat c * unat max_saturation < 2 ^ 32 \<longrightarrow>
      unat (Dijkstra_capacity max_saturation c) = max 1 (unat c * unat max_saturation div 100)) \<and>
   (max_saturation \<noteq> UINT_MAX \<longrightarrow>
      unat (Dijkstra_capacity max_saturation c) =
        max 1 ((unat c * unat max_saturation) mod 2 ^ 32 div 100)) \<and>
   (\<exists>c' s'. s' \<noteq> UINT_MAX \<and> 2 ^ 32 \<le> unat c' * unat s' \<and>
      unat (Dijkstra_capacity s' c') = 1 \<and> unat c' * unat s' div 100 = 42949673)"
proof -
  have "unat (Dijkstra_capacity 100 42949673) = 1"
    by (simp add: Dijkstra_capacity_def UINT_MAX_def)
  then have "(100::uint) \<noteq> UINT_MAX \<and> 2 ^ 32 \<le> unat (42949673::uint) * unat (100::uint) \<and>
      unat (Dijkstra_capacity 100 42949673) = 1 \<and> unat (42949673::uint) * unat (100::uint) div 100 = 42949673"
    by (simp add: UINT_MAX_def)
  then have "\<exists>c' s'. s' \<noteq> UINT_MAX \<and> 2 ^ 32 \<le> unat c' * unat s' \<and>
      unat (Dijkstra_capacity s' c') = 1 \<and> unat c' * unat s' div 100 = 42949673"
    by blast
  then show ?thesis
    using Dijkstra_capacity_unat[of max_saturation c] by simp
qed

theorem Dijkstra_capacity_scaling_witness:
  "unat (Dijkstra_capacity 80 10) = 8 \<and> unat (Dijkstra_capacity 80 1) = 1 \<and>
   unat (Dijkstra_capacity 100 42949673) = 1"
  using Dijkstra_capacity_scaling [of 80 10] Dijkstra_capacity_scaling [of 80 1]
    Dijkstra_capacity_scaling [of 100 42949673]
  by (simp add: UINT_MAX_def)

subsection \<open>The relaxation step\<close>

lemma word_max_1: "max 1 (x::uint) = (if x = 0 then 1 else x)"
  by (auto simp: max_def word_le_nat_alt unat_eq_0 [symmetric] simp del: unat_eq_0) 

lemma Dijkstra_capacity_max:
  "Dijkstra_capacity max_saturation c =
     (if max_saturation = UINT_MAX then c else max 1 (c * max_saturation div 100))"
  by (simp add: Dijkstra_capacity_def Let_def word_max_1)

text \<open>
  C4. The relaxation step of the search, for a target \<open>to\<close> the iterator yields: a target
  equal to the current node is skipped. Otherwise (the edge has a finite distance and
  \<open>paths[to]\<close> is \<open>dest\<close>) the capacity passed on is the capacity of the edge when
  \<open>max_saturation = UINT_MAX\<close> and \<open>max(1, capacity * max_saturation / 100)\<close> otherwise, the
  free capacity is that capacity minus the flow of the edge, the distance is the distance
  of the edge plus 1, all in unsigned 32-bit arithmetic; and \<open>dest\<close> is erased from the
  frontier, forked from \<open>source\<close> and inserted again exactly when \<open>IsBetter\<close> holds, while
  otherwise the objects and the frontier stay as they are.
\<close>

theorem Dijkstra_relax_step:
  "(to = from' \<longrightarrow>
      Dijkstra_relax IsBetter Comparator Fork' job max_saturation paths source from' to (h, annos) =
        Inr (h, annos)) \<and>
   (to \<noteq> from' \<and> Distance (job from' to) < UINT_MAX \<and> at paths to = Inr (Some dest) \<longrightarrow>
      (let cap = (if max_saturation = UINT_MAX then Capacity (job from' to)
                  else max 1 (Capacity (job from' to) * max_saturation div 100));
           free = sint (cap - Flow (job from' to));
           dist = Distance (job from' to) + 1
       in Dijkstra_relax IsBetter Comparator Fork' job max_saturation paths source from' to
            (h, annos) =
          (if IsBetter (h dest) (h source) cap free dist
           then Inr (Fork' h dest source cap free dist,
                     set_insert (Comparator (Fork' h dest source cap free dist)) dest
                       (set_erase (Comparator h) dest annos))
           else Inr (h, annos))))"
  by (simp add: Dijkstra_relax_def Dijkstra_capacity_max Let_def)

theorem Dijkstra_relax_step_witness:
  "Dijkstra_relax DistanceAnnotation_IsBetter DistanceAnnotation_Comparator Fork
      (\<lambda>a b. \<lparr>Distance = 1, Capacity = 10, Flow = 3, Demand = 0, UnsatisfiedDemand = 0\<rparr>) 80
      [Some 0, Some 1, Some 2] 0 0 0 (\<lambda>p. Path_new (of_nat p) (p = 0), [1, 2]) =
     Inr (\<lambda>p. Path_new (of_nat p) (p = 0), [1, 2]) \<and>
   Dijkstra_relax DistanceAnnotation_IsBetter DistanceAnnotation_Comparator Fork
      (\<lambda>a b. \<lparr>Distance = 1, Capacity = 10, Flow = 3, Demand = 0, UnsatisfiedDemand = 0\<rparr>) 80
      [Some 0, Some 1, Some 2] 0 0 2 (\<lambda>p. Path_new (of_nat p) (p = 0), [1, 2]) =
     Inr (Fork (\<lambda>p. Path_new (of_nat p) (p = 0)) 2 0 8 5 2, [2, 1])"
proof -
  have hyp: "(2::NodeID) \<noteq> 0 \<and>
      Distance ((\<lambda>a b. \<lparr>Distance = 1, Capacity = 10, Flow = 3, Demand = 0,
                        UnsatisfiedDemand = 0\<rparr>) (0::NodeID) (2::NodeID)) < UINT_MAX \<and>
      at [Some 0, Some 1, Some 2] 2 = Inr (Some 2)"
    by (simp add: UINT_MAX_def at_def)
  have cmp: "set_insert (DistanceAnnotation_Comparator
                 (Fork (\<lambda>p. Path_new (of_nat p) (p = 0)) 2 0 8 5 2)) 2
               (set_erase (DistanceAnnotation_Comparator (\<lambda>p. Path_new (of_nat p) (p = 0))) 2
                  [1, 2]) = [2, 1]"
    by (simp add: DistanceAnnotation_Comparator_def Greater_def Fork_def Detach_def Path_new_def
        UINT_MAX_def Let_def)
  show ?thesis
    using Dijkstra_relax_step [where to = 0 and from' = 0 and source = 0 and max_saturation = 80
        and IsBetter = DistanceAnnotation_IsBetter
        and Comparator = DistanceAnnotation_Comparator and Fork' = Fork
        and job = "\<lambda>a b. \<lparr>Distance = 1, Capacity = 10, Flow = 3, Demand = 0,
                            UnsatisfiedDemand = 0\<rparr>"
        and paths = "[Some 0, Some 1, Some 2]" and annos = "[1, 2]"
        and h = "\<lambda>p. Path_new (of_nat p) (p = 0)", THEN conjunct1]
      Dijkstra_relax_step [where to = 2 and from' = 0 and source = 0 and max_saturation = 80
        and dest = 2 and IsBetter = DistanceAnnotation_IsBetter
        and Comparator = DistanceAnnotation_Comparator and Fork' = Fork
        and job = "\<lambda>a b. \<lparr>Distance = 1, Capacity = 10, Flow = 3, Demand = 0,
                            UnsatisfiedDemand = 0\<rparr>"
        and paths = "[Some 0, Some 1, Some 2]" and annos = "[1, 2]"
        and h = "\<lambda>p. Path_new (of_nat p) (p = 0)", THEN conjunct2, rule_format, OF hyp]
      cmp
    by (simp add: Let_def UINT_MAX_def DistanceAnnotation_IsBetter_def Path_new_def INT_MIN_def
        INT_MAX_def)
qed

subsection \<open>Pushing flow\<close>

lemma Clamp_bounds: "lo \<le> hi \<Longrightarrow> lo \<le> Clamp a lo hi \<and> Clamp a lo hi \<le> hi"
  by (auto simp: Clamp_def)

lemma Clamp_max_min: "lo \<le> hi \<Longrightarrow> Clamp a lo hi = max lo (min a hi)"
  by (auto simp: Clamp_def max_def min_def)

lemma one_le_word: "(0::uint) < x \<Longrightarrow> 1 \<le> x"
  by (simp add: word_le_nat_alt word_less_nat_alt)

lemma fold_residual_bounds:
  "0 \<le> m \<Longrightarrow>
   0 \<le> fold (\<lambda>(a, b) m. min m (max 0 (r a b))) legs m \<and>
   fold (\<lambda>(a, b) m. min m (max 0 (r a b :: int))) legs m \<le> m"
proof (induction legs arbitrary: m)
  case Nil
  then show ?case by simp
next
  case (Cons l legs)
  obtain a b where l: "l = (a, b)" by (cases l)
  have "0 \<le> min m (max 0 (r a b))" using Cons.prems by simp
  from Cons.IH [OF this] show ?case using l by auto
qed

lemma word_of_int_le:
  "0 \<le> x \<Longrightarrow> x \<le> uint (w::uint) \<Longrightarrow> word_of_int x \<le> w"
proof -
  assume a: "0 \<le> x" "x \<le> uint w"
  have "uint w < 2 ^ 32" using uint_bounded [of w] by simp
  then have "x < 2 ^ 32" using a by linarith
  then have "uint (word_of_int x :: uint) = x" using a by (simp add: uint_word_of_int)
  then show ?thesis using a by (simp add: word_le_def)
qed

lemma edge_update_Flow:
  "UnsatisfiedDemand (edge_update (\<lambda>e. e\<lparr>Flow := g e\<rparr>) l job a b) =
     UnsatisfiedDemand (job a b) \<and>
   Demand (edge_update (\<lambda>e. e\<lparr>Flow := g e\<rparr>) l job a b) = Demand (job a b)"
  by (cases l) (simp add: edge_update_def)

lemma fold_edge_update_Flow:
  "UnsatisfiedDemand (fold (edge_update (\<lambda>e. e\<lparr>Flow := g e\<rparr>)) legs job a b) =
     UnsatisfiedDemand (job a b) \<and>
   Demand (fold (edge_update (\<lambda>e. e\<lparr>Flow := g e\<rparr>)) legs job a b) = Demand (job a b)"
proof (induction legs arbitrary: job)
  case Nil
  then show ?case by simp
next
  case (Cons l legs)
  show ?case
    using Cons.IH [of "edge_update (\<lambda>e. e\<lparr>Flow := g e\<rparr>) l job"]
      edge_update_Flow [of g l job a b]
    by simp
qed

lemma AddFlow_result:
  assumes "path_chain (heap st) this = Some chain"
  shows "\<exists>f st1. AddFlow st this want max_saturation = Some (Inr (f, st1)) \<and> f \<le> want \<and>
           (max_saturation = UINT_MAX \<longrightarrow> f = want) \<and>
           (\<forall>a b. UnsatisfiedDemand (edges st1 a b) = UnsatisfiedDemand (edges st a b) \<and>
                  Demand (edges st1 a b) = Demand (edges st a b)) \<and>
           Size st1 = Size st \<and> accuracy st1 = accuracy st"
proof (cases "max_saturation = UINT_MAX")
  case True
  then show ?thesis using assms
    by (simp add: AddFlow_def AddFlow_apply_def AddFlow_limit_def fold_edge_update_Flow)
next
  case False
  have "word_of_int (fold (\<lambda>(from, to) m. min m (max 0 (residual max_saturation (edges st from to))))
           (path_legs (heap st) chain) (uint want)) \<le> want"
    using fold_residual_bounds [of "uint want" "\<lambda>a b. residual max_saturation (edges st a b)"
        "path_legs (heap st) chain"]
    by (intro word_of_int_le) auto
  then show ?thesis using assms False
    by (simp add: AddFlow_def AddFlow_apply_def AddFlow_limit_def fold_edge_update_Flow)
qed


lemma heap_fold_flow:
  "free_capacity (fold (\<lambda>p h. h(p := (h p)\<lparr>flow := g h p\<rparr>)) chain h q) = free_capacity (h q)"
  by (induction chain arbitrary: h) simp_all

lemma PushFlow_result:
  assumes "UnsatisfiedDemand (edges st from' to) > 0" and "accuracy' \<noteq> 0"
    and "path_chain (heap st) path = Some chain"
  shows "\<exists>pushed st1.
      AddFlow st path
        (Clamp (Demand (edges st from' to) div accuracy') 1 (UnsatisfiedDemand (edges st from' to)))
        max_saturation = Some (Inr (pushed, st1)) \<and>
      PushFlow st (from', to) path accuracy' max_saturation =
        Some (Inr (pushed,
           st1\<lparr>edges := edge_update (SatisfyDemand pushed) (from', to) (edges st1)\<rparr>)) \<and>
      pushed \<le> Clamp (Demand (edges st from' to) div accuracy') 1
                  (UnsatisfiedDemand (edges st from' to)) \<and>
      (max_saturation = UINT_MAX \<longrightarrow>
         pushed = Clamp (Demand (edges st from' to) div accuracy') 1
                    (UnsatisfiedDemand (edges st from' to))) \<and>
      pushed \<le> UnsatisfiedDemand (edges st from' to) \<and>
      (\<forall>a b. UnsatisfiedDemand (edges st1 a b) = UnsatisfiedDemand (edges st a b) \<and>
             Demand (edges st1 a b) = Demand (edges st a b)) \<and>
      Size st1 = Size st \<and> accuracy st1 = accuracy st"
proof -
  let ?want = "Clamp (Demand (edges st from' to) div accuracy') 1
                 (UnsatisfiedDemand (edges st from' to))"
  from AddFlow_result [OF assms(3), of ?want max_saturation]
  obtain f st1 where r: "AddFlow st path ?want max_saturation = Some (Inr (f, st1))"
    "f \<le> ?want" "max_saturation = UINT_MAX \<longrightarrow> f = ?want"
    "\<forall>a b. UnsatisfiedDemand (edges st1 a b) = UnsatisfiedDemand (edges st a b) \<and>
           Demand (edges st1 a b) = Demand (edges st a b)"
    "Size st1 = Size st" "accuracy st1 = accuracy st"
    by blast
  have "?want \<le> UnsatisfiedDemand (edges st from' to)"
    using Clamp_bounds [OF one_le_word [OF assms(1)]] by blast
  then have "f \<le> UnsatisfiedDemand (edges st from' to)" using r(2) by simp
  then show ?thesis using r assms(1,2)
    by (simp add: PushFlow_def Let_def)
qed

text \<open>
  C6. Under its precondition \<open>edge.unsatisfied_demand > 0\<close> (and for an accuracy other than
  0 and a path whose walk to the root ends), \<open>PushFlow\<close> computes
  \<open>want = clamp(edge.demand / accuracy, 1, edge.unsatisfied_demand)\<close>, pushes what
  \<open>path.AddFlow(want, job, max_saturation)\<close> returns, which is at most \<open>want\<close>, decreases the
  unsatisfied demand of the edge by exactly that amount, and returns it. The state it
  leaves is the one \<open>AddFlow\<close> left, with the flow pushed along the path, but for the
  unsatisfied demand of this one edge.
\<close>
theorem PushFlow_correct:
  "UnsatisfiedDemand (edges st from' to) > 0 \<and> accuracy' \<noteq> 0 \<and>
   path_chain (heap st) path = Some chain \<longrightarrow>
   (\<exists>want pushed st1 st'.
      want = max 1 (min (Demand (edges st from' to) div accuracy')
                        (UnsatisfiedDemand (edges st from' to))) \<and>
      AddFlow st path want max_saturation = Some (Inr (pushed, st1)) \<and>
      PushFlow st (from', to) path accuracy' max_saturation = Some (Inr (pushed, st')) \<and>
      pushed \<le> want \<and>
      unat (UnsatisfiedDemand (edges st' from' to)) =
        unat (UnsatisfiedDemand (edges st from' to)) - unat pushed \<and>
      unat pushed \<le> unat (UnsatisfiedDemand (edges st from' to)) \<and>
      st' = st1\<lparr>edges := (\<lambda>a b.
               if a = from' \<and> b = to
               then (edges st1 a b)\<lparr>UnsatisfiedDemand := UnsatisfiedDemand (edges st1 a b) - pushed\<rparr>
               else edges st1 a b)\<rparr> \<and>
      st1 = st\<lparr>edges := fold (edge_update (\<lambda>e. e\<lparr>Flow := Flow e + pushed\<rparr>))
                          (path_legs (heap st) chain) (edges st),
                heap := fold (\<lambda>p h. h(p := (h p)\<lparr>flow := flow (h p) + pushed\<rparr>)) chain (heap st)\<rparr>)"
proof (intro impI, elim conjE)
  assume a: "UnsatisfiedDemand (edges st from' to) > 0" "accuracy' \<noteq> 0"
    "path_chain (heap st) path = Some chain"
  let ?want = "Clamp (Demand (edges st from' to) div accuracy') 1
                 (UnsatisfiedDemand (edges st from' to))"
  have w: "?want = max 1 (min (Demand (edges st from' to) div accuracy')
                        (UnsatisfiedDemand (edges st from' to)))"
    by (rule Clamp_max_min [OF one_le_word [OF a(1)]])
  from PushFlow_result [OF a, of max_saturation]
  obtain pushed st1 where r:
    "AddFlow st path ?want max_saturation = Some (Inr (pushed, st1))"
    "PushFlow st (from', to) path accuracy' max_saturation =
       Some (Inr (pushed, st1\<lparr>edges := edge_update (SatisfyDemand pushed) (from', to) (edges st1)\<rparr>))"
    "pushed \<le> ?want" "pushed \<le> UnsatisfiedDemand (edges st from' to)"
    "\<forall>a b. UnsatisfiedDemand (edges st1 a b) = UnsatisfiedDemand (edges st a b) \<and>
           Demand (edges st1 a b) = Demand (edges st a b)"
    by blast
  let ?st' = "st1\<lparr>edges := edge_update (SatisfyDemand pushed) (from', to) (edges st1)\<rparr>"
  have u: "unat (UnsatisfiedDemand (edges ?st' from' to)) =
        unat (UnsatisfiedDemand (edges st from' to)) - unat pushed"
    using r(4,5) by (simp add: edge_update_def SatisfyDemand_def unat_sub)
  have l: "unat pushed \<le> unat (UnsatisfiedDemand (edges st from' to))"
    using r(4) by (simp add: word_le_nat_alt)
  have "edge_update (SatisfyDemand pushed) (from', to) (edges st1) =
      (\<lambda>a b. if a = from' \<and> b = to
         then (edges st1 a b)\<lparr>UnsatisfiedDemand := UnsatisfiedDemand (edges st1 a b) - pushed\<rparr>
         else edges st1 a b)"
    by (intro ext) (simp add: edge_update_def SatisfyDemand_def)
  then have e: "?st' = st1\<lparr>edges := (\<lambda>a b.
               if a = from' \<and> b = to
               then (edges st1 a b)\<lparr>UnsatisfiedDemand := UnsatisfiedDemand (edges st1 a b) - pushed\<rparr>
               else edges st1 a b)\<rparr>"
    by simp
  have s: "st1 = st\<lparr>edges := fold (edge_update (\<lambda>e. e\<lparr>Flow := Flow e + pushed\<rparr>))
                          (path_legs (heap st) chain) (edges st),
                heap := fold (\<lambda>p h. h(p := (h p)\<lparr>flow := flow (h p) + pushed\<rparr>)) chain (heap st)\<rparr>"
    using r(1) a(3) by (auto simp: AddFlow_def AddFlow_apply_def)
  show "\<exists>want pushed st1 st'.
      want = max 1 (min (Demand (edges st from' to) div accuracy')
                        (UnsatisfiedDemand (edges st from' to))) \<and>
      AddFlow st path want max_saturation = Some (Inr (pushed, st1)) \<and>
      PushFlow st (from', to) path accuracy' max_saturation = Some (Inr (pushed, st')) \<and>
      pushed \<le> want \<and>
      unat (UnsatisfiedDemand (edges st' from' to)) =
        unat (UnsatisfiedDemand (edges st from' to)) - unat pushed \<and>
      unat pushed \<le> unat (UnsatisfiedDemand (edges st from' to)) \<and>
      st' = st1\<lparr>edges := (\<lambda>a b.
               if a = from' \<and> b = to
               then (edges st1 a b)\<lparr>UnsatisfiedDemand := UnsatisfiedDemand (edges st1 a b) - pushed\<rparr>
               else edges st1 a b)\<rparr> \<and>
      st1 = st\<lparr>edges := fold (edge_update (\<lambda>e. e\<lparr>Flow := Flow e + pushed\<rparr>))
                          (path_legs (heap st) chain) (edges st),
                heap := fold (\<lambda>p h. h(p := (h p)\<lparr>flow := flow (h p) + pushed\<rparr>)) chain (heap st)\<rparr>"
    apply (rule exI [of _ ?want], rule exI [of _ pushed], rule exI [of _ st1],
        rule exI [of _ ?st'])
    using w r(1,2,3) u l e s by blast
qed

lemma two_node_chain: "path_chain (heap two_node_job) 1 = Some [1, 0]"
  by code_simp

theorem PushFlow_correct_witness:
  "\<exists>pushed st1 st'.
      AddFlow two_node_job 1 50 80 = Some (Inr (pushed, st1)) \<and>
      PushFlow two_node_job (0, 1) 1 1 80 = Some (Inr (pushed, st')) \<and>
      pushed \<le> 50 \<and>
      unat (UnsatisfiedDemand (edges st' 0 1)) = 50 - unat pushed \<and> unat pushed \<le> 50 \<and>
      Flow (edges st' 0 1) = Flow (edges st1 0 1) \<and> Flow (edges st1 0 1) = pushed \<and>
      flow (heap st' 1) = pushed \<and> heap st' = heap st1 \<and> pushed = 8"
proof -
  have e: "edges two_node_job 0 1 =
      \<lparr>Distance = 10, Capacity = 10, Flow = 0, Demand = 50, UnsatisfiedDemand = 50\<rparr>"
    by (simp add: two_node_job_def)
  have hyp: "UnsatisfiedDemand (edges two_node_job 0 1) > 0 \<and> (1::uint) \<noteq> 0 \<and>
      path_chain (heap two_node_job) 1 = Some [1, 0]"
    using two_node_chain by (simp add: e)
  have l: "path_legs (heap two_node_job) [1, 0] = [(0, 1)]" by code_simp
  from PushFlow_correct [where st = two_node_job and from' = 0 and to = 1 and accuracy' = 1
        and path = 1 and chain = "[1, 0]" and max_saturation = 80, rule_format, OF hyp,
        unfolded l]
  obtain want pushed st1 st' where
    r: "want = max 1 (min (Demand (edges two_node_job 0 1) div 1)
                        (UnsatisfiedDemand (edges two_node_job 0 1)))"
      "AddFlow two_node_job 1 want 80 = Some (Inr (pushed, st1))"
      "PushFlow two_node_job (0, 1) 1 1 80 = Some (Inr (pushed, st'))"
      "pushed \<le> want"
      "unat (UnsatisfiedDemand (edges st' 0 1)) =
        unat (UnsatisfiedDemand (edges two_node_job 0 1)) - unat pushed"
      "unat pushed \<le> unat (UnsatisfiedDemand (edges two_node_job 0 1))"
    and s': "st' = st1\<lparr>edges := (\<lambda>a b.
               if a = 0 \<and> b = 1
               then (edges st1 a b)\<lparr>UnsatisfiedDemand := UnsatisfiedDemand (edges st1 a b) - pushed\<rparr>
               else edges st1 a b)\<rparr>"
    and s1: "st1 = two_node_job\<lparr>edges := fold (edge_update (\<lambda>e. e\<lparr>Flow := Flow e + pushed\<rparr>))
                          [(0, 1)] (edges two_node_job),
                heap := fold (\<lambda>p h. h(p := (h p)\<lparr>flow := flow (h p) + pushed\<rparr>)) [1, 0]
                          (heap two_node_job)\<rparr>"
    by blast
  have w: "want = 50" using r(1) by (simp add: e)
  have 1: "Flow (edges st' 0 1) = Flow (edges st1 0 1)" "heap st' = heap st1"
    unfolding s' by simp_all
  have 2: "Flow (edges st1 0 1) = pushed" unfolding s1 by (simp add: edge_update_def e)
  have 3: "flow (heap st' 1) = pushed" unfolding 1 s1 by (simp add: two_node_job_def)
  have "case PushFlow two_node_job (0, 1) 1 1 80 of Some (Inr y) \<Rightarrow> fst y = 8 | _ \<Rightarrow> False"
    by code_simp
  with r(3) have 4: "pushed = 8" by simp
  from r w 1 2 3 4 show ?thesis by (auto simp: e)
qed

lemma PushFlow_two_node_job:
  "case PushFlow two_node_job (0, 1) 1 1 80 of Some (Inr (pushed, st')) \<Rightarrow>
    pushed = 8 \<and> UnsatisfiedDemand (edges st' 0 1) = 42 \<and> Flow (edges st' 0 1) = 8 | _ \<Rightarrow> False"
  by code_simp

subsection \<open>The pushes of the first pass\<close>

lemma PushFlow_Inr:
  assumes "PushFlow st (from', to) path acc ms = Some (Inr (pushed, st'))"
  shows "UnsatisfiedDemand (edges st' from' to) = UnsatisfiedDemand (edges st from' to) - pushed"
    and "Demand (edges st' from' to) = Demand (edges st from' to)"
    and "free_capacity (heap st' p) = free_capacity (heap st p)"
proof -
  from assms obtain st1 want where
    a: "AddFlow st path want ms = Some (Inr (pushed, st1))"
    and s: "st' = st1\<lparr>edges := edge_update (SatisfyDemand pushed) (from', to) (edges st1)\<rparr>"
    by (auto simp: PushFlow_def Let_def bind_eq_Some_Inr split: if_splits)
  from a obtain chain where c: "path_chain (heap st) path = Some chain"
    by (auto simp: AddFlow_def split: option.splits)
  from AddFlow_result [OF c, of want ms] a
  have e: "\<forall>a b. UnsatisfiedDemand (edges st1 a b) = UnsatisfiedDemand (edges st a b) \<and>
             Demand (edges st1 a b) = Demand (edges st a b)"
    by auto
  have h: "free_capacity (heap st1 p) = free_capacity (heap st p)"
    using a c by (auto simp: AddFlow_def AddFlow_apply_def heap_fold_flow)
  show "UnsatisfiedDemand (edges st' from' to) = UnsatisfiedDemand (edges st from' to) - pushed"
    using e s by (simp add: edge_update_def SatisfyDemand_def)
  show "Demand (edges st' from' to) = Demand (edges st from' to)"
    using e s by (simp add: edge_update_def SatisfyDemand_def)
  show "free_capacity (heap st' p) = free_capacity (heap st p)"
    using h s by simp
qed

lemma MCF1stPass_else_calls:
  assumes "MCF1stPass_else st (source, dest) path acc calls more_loops =
             Some (Inr (calls', more_loops', st'))"
  shows "(calls' = calls @ [OneShotOverload] \<and>
          UnsatisfiedDemand (edges st source dest) = Demand (edges st source dest) \<and>
          free_capacity (heap st path) > INT_MIN) \<or>
         (calls' = calls \<and>
          \<not> (UnsatisfiedDemand (edges st source dest) = Demand (edges st source dest) \<and>
             free_capacity (heap st path) > INT_MIN))"
  using assms
  by (auto simp: MCF1stPass_else_def bind_eq_Some_Inr split: if_splits)

text \<open>
  C1, as the code has it. For a destination whose edge has unsatisfied demand, the
  one-shot push with \<open>max_saturation = UINT_MAX\<close> is made exactly when no capped push
  moved flow in this step (the free capacity of the path is not positive, or it is
  positive and the capped push returned 0), the unsatisfied demand of the edge equals
  its demand, and the free capacity of the path is above \<open>INT_MIN\<close>. A path with positive
  free capacity always gets the saturation-capped push, first; the capped push is made
  only for such a path; and each push is made at most once.
\<close>

theorem MCF1stPass_dest_pushes:
  "MCF1stPass_dest max_saturation paths source dest (more_loops, st) =
     Some (Inr (calls, more_loops', st')) \<longrightarrow>
   (OneShotOverload \<in> set calls \<longleftrightarrow>
      UnsatisfiedDemand (edges st source dest) > 0 \<and>
      (\<exists>path. at paths dest = Inr (Some path) \<and>
         (\<not> free_capacity (heap st path) > 0 \<or>
          (\<exists>st1. PushFlow st (source, dest) path (accuracy st) max_saturation =
                   Some (Inr (0, st1)))) \<and>
         free_capacity (heap st path) > INT_MIN) \<and>
      UnsatisfiedDemand (edges st source dest) = Demand (edges st source dest)) \<and>
   (SaturationCapped \<in> set calls \<longleftrightarrow>
      UnsatisfiedDemand (edges st source dest) > 0 \<and>
      (\<exists>path. at paths dest = Inr (Some path) \<and> free_capacity (heap st path) > 0)) \<and>
   (calls = [] \<or> calls = [SaturationCapped] \<or> calls = [OneShotOverload] \<or>
    calls = [SaturationCapped, OneShotOverload])"
proof
  assume r: "MCF1stPass_dest max_saturation paths source dest (more_loops, st) =
     Some (Inr (calls, more_loops', st'))"
  show "(OneShotOverload \<in> set calls \<longleftrightarrow>
      UnsatisfiedDemand (edges st source dest) > 0 \<and>
      (\<exists>path. at paths dest = Inr (Some path) \<and>
         (\<not> free_capacity (heap st path) > 0 \<or>
          (\<exists>st1. PushFlow st (source, dest) path (accuracy st) max_saturation =
                   Some (Inr (0, st1)))) \<and>
         free_capacity (heap st path) > INT_MIN) \<and>
      UnsatisfiedDemand (edges st source dest) = Demand (edges st source dest)) \<and>
   (SaturationCapped \<in> set calls \<longleftrightarrow>
      UnsatisfiedDemand (edges st source dest) > 0 \<and>
      (\<exists>path. at paths dest = Inr (Some path) \<and> free_capacity (heap st path) > 0)) \<and>
   (calls = [] \<or> calls = [SaturationCapped] \<or> calls = [OneShotOverload] \<or>
    calls = [SaturationCapped, OneShotOverload])"
  proof (cases "UnsatisfiedDemand (edges st source dest) > 0")
    case False
    then show ?thesis using r by (simp add: MCF1stPass_dest_def)
  next
    case unsat: True
    then obtain path where p: "at paths dest = Inr (Some path)"
      using r by (auto simp: MCF1stPass_dest_def split: sum.splits option.splits)
    show ?thesis
    proof (cases "free_capacity (heap st path) > 0")
      case False
      then have "MCF1stPass_else st (source, dest) path (accuracy st) [] more_loops =
          Some (Inr (calls, more_loops', st'))"
        using r unsat p by (simp add: MCF1stPass_dest_def)
      from MCF1stPass_else_calls [OF this] show ?thesis using unsat p False by auto
    next
      case free: True
      then obtain pushed st1 where
        push: "PushFlow st (source, dest) path (accuracy st) max_saturation =
                 Some (Inr (pushed, st1))"
        and rest: "(if pushed > 0
             then Some (Inr ([SaturationCapped],
                    more_loops \<or> UnsatisfiedDemand (edges st1 source dest) > 0, st1))
             else MCF1stPass_else st1 (source, dest) path (accuracy st) [SaturationCapped]
                    more_loops) = Some (Inr (calls, more_loops', st'))"
        using r unsat p by (auto simp: MCF1stPass_dest_def bind_eq_Some_Inr)
      show ?thesis
      proof (cases "pushed > 0")
        case True
        then have "pushed \<noteq> 0" by simp
        then show ?thesis using rest True push unsat p free by auto
      next
        case False
        then have z: "pushed = 0" by (simp add: word_greater_zero_iff)
        have e: "MCF1stPass_else st1 (source, dest) path (accuracy st) [SaturationCapped]
                    more_loops = Some (Inr (calls, more_loops', st'))"
          using rest z by simp
        have same: "UnsatisfiedDemand (edges st1 source dest) = UnsatisfiedDemand (edges st source dest)"
          "Demand (edges st1 source dest) = Demand (edges st source dest)"
          "free_capacity (heap st1 path) = free_capacity (heap st path)"
          using PushFlow_Inr [OF push] z by simp_all
        from MCF1stPass_else_calls [OF e] show ?thesis
          using unsat p free push z same by auto
      qed
    qed
  qed
qed

text \<open>
  The claim as stated fails on the three nodes in a row, in the first search from node
  0 at a saturation of 100 percent. The search gives the paths to node 1 and to node 2
  a free capacity of 10. The push for node 1 fills the link from 0 to 1. The path to node
  2 still records a free capacity of 10, so it gets the capped push, which returns 0;
  nothing has been assigned to the pair yet, so it then gets the push with
  \<open>UINT_MAX\<close> as well, and the link from 0 to 1 ends with a flow of 15 on a capacity
  of 10.
\<close>

theorem MCF1stPass_overload_counterexample:
  "(case MCF1stPass_source three_node_links 100 0 (False, three_node_job) of
      Some (Inr (trace, more_loops, st, paths)) \<Rightarrow>
        trace = [(1, SaturationCapped), (2, SaturationCapped), (2, OneShotOverload)] \<and>
        map (map_option (\<lambda>p. free_capacity (heap st p))) paths = [Some INT_MAX, Some 10, Some 10] \<and>
        Flow (edges st 0 1) = 15 \<and> Capacity (edges st 0 1) = 10
    | _ \<Rightarrow> False) \<and>
   (case bind (Dijkstra DistanceAnnotation_IsBetter DistanceAnnotation_Comparator Fork
                (\<lambda>source_node. three_node_links) 100 0 three_node_job)
           (\<lambda>(st1, paths).
              bind (MCF1stPass_dests 100 paths 0 [0, 1] ([], False, st1))
                (\<lambda>(trace, more_loops, st2).
                   bind (MCF1stPass_dest 100 paths 0 2 (more_loops, st2))
                     (\<lambda>(calls, more_loops', st3).
                        Some (Inr (calls,
                          map_option (\<lambda>p. free_capacity (heap st2 p)) (paths ! 2),
                          UnsatisfiedDemand (edges st2 0 2), Demand (edges st2 0 2)))))) of
      Some (Inr r) \<Rightarrow> r = ([SaturationCapped, OneShotOverload], Some 10, 5, 5)
    | _ \<Rightarrow> False)"
  by code_simp


lemma result_caseE:
  assumes "case r of Some (Inr y) \<Rightarrow> P y | _ \<Rightarrow> False"
  obtains y where "r = Some (Inr y)" and "P y"
  using assms by (auto split: option.splits sum.splits)

theorem MCF1stPass_dest_pushes_witness:
  "\<exists>paths st2 more_loops calls more_loops' st3 path st1.
     MCF1stPass_dest 100 paths 0 2 (more_loops, st2) = Some (Inr (calls, more_loops', st3)) \<and>
     calls = [SaturationCapped, OneShotOverload] \<and>
     at paths 2 = Inr (Some path) \<and> free_capacity (heap st2 path) = 10 \<and>
     PushFlow st2 (0, 2) path (accuracy st2) 100 = Some (Inr (0, st1)) \<and>
     UnsatisfiedDemand (edges st2 0 2) = Demand (edges st2 0 2)"
proof -
  have "case bind (Dijkstra DistanceAnnotation_IsBetter DistanceAnnotation_Comparator Fork
                (\<lambda>source_node. three_node_links) 100 0 three_node_job)
           (\<lambda>(st1, paths).
              bind (MCF1stPass_dests 100 paths 0 [0, 1] ([], False, st1))
                (\<lambda>(trace, more_loops, st2).
                   bind (MCF1stPass_dest 100 paths 0 2 (more_loops, st2))
                     (\<lambda>(calls, more_loops', st3).
                        Some (Inr (calls, at paths 2, free_capacity (heap st2 2)))))) of
      Some (Inr r) \<Rightarrow> r = ([SaturationCapped, OneShotOverload], Inr (Some 2), 10)
    | _ \<Rightarrow> False"
    by code_simp
  then obtain paths st2 more_loops calls more_loops' st3 where
    d: "MCF1stPass_dest 100 paths 0 2 (more_loops, st2) = Some (Inr (calls, more_loops', st3))"
    and c: "calls = [SaturationCapped, OneShotOverload]"
    and p: "at paths 2 = Inr (Some 2)"
    and f: "free_capacity (heap st2 2) = 10"
    by (auto simp: bind_eq_Some_Inr elim!: result_caseE)
  have o: "OneShotOverload \<in> set calls" using c by simp
  from MCF1stPass_dest_pushes [rule_format, OF d, THEN conjunct1, THEN iffD1, OF o]
  obtain path where
    q: "at paths 2 = Inr (Some path)"
      "\<not> free_capacity (heap st2 path) > 0 \<or>
       (\<exists>st1. PushFlow st2 (0, 2) path (accuracy st2) 100 = Some (Inr (0, st1)))"
      "UnsatisfiedDemand (edges st2 0 2) = Demand (edges st2 0 2)"
    by blast
  from q(1) p have "path = 2" by simp
  with q(2) f obtain st1' where
    "PushFlow st2 (0, 2) 2 (accuracy st2) 100 = Some (Inr (0, st1'))"
    by auto
  with d c p f q(3) show ?thesis by blast
qed

subsection \<open>Termination of the second pass\<close>

lemma PushFlow_effect:
  assumes "PushFlow st (source, dest) path acc ms = Some (Inr (pushed, st'))"
  shows "Size st' = Size st" and "accuracy st' = accuracy st"
    and "\<forall>a b. (a, b) \<noteq> (source, dest) \<longrightarrow>
           UnsatisfiedDemand (edges st' a b) = UnsatisfiedDemand (edges st a b)"
    and "unat (UnsatisfiedDemand (edges st' source dest)) =
           unat (UnsatisfiedDemand (edges st source dest)) - unat pushed"
    and "unat pushed \<le> unat (UnsatisfiedDemand (edges st source dest))"
    and "ms = UINT_MAX \<longrightarrow> 1 \<le> pushed \<and>
           pushed = Clamp (Demand (edges st source dest) div acc) 1
                      (UnsatisfiedDemand (edges st source dest))"
proof -
  from assms have u: "UnsatisfiedDemand (edges st source dest) > 0" and a: "acc \<noteq> 0"
    by (auto simp: PushFlow_def split: if_splits)
  let ?want = "Clamp (Demand (edges st source dest) div acc) 1
                 (UnsatisfiedDemand (edges st source dest))"
  from assms u a obtain st0 where
    af: "AddFlow st path ?want ms = Some (Inr (pushed, st0))"
    by (auto simp: PushFlow_def Let_def bind_eq_Some_Inr)
  then obtain chain where c: "path_chain (heap st) path = Some chain"
    by (auto simp: AddFlow_def split: option.splits)
  from PushFlow_result [OF u a c, of ms] af assms
  obtain st1 where r:
    "st' = st1\<lparr>edges := edge_update (SatisfyDemand pushed) (source, dest) (edges st1)\<rparr>"
    "pushed \<le> ?want" "ms = UINT_MAX \<longrightarrow> pushed = ?want"
    "pushed \<le> UnsatisfiedDemand (edges st source dest)"
    "\<forall>a b. UnsatisfiedDemand (edges st1 a b) = UnsatisfiedDemand (edges st a b) \<and>
           Demand (edges st1 a b) = Demand (edges st a b)"
    "Size st1 = Size st" "accuracy st1 = accuracy st"
    by auto
  show "Size st' = Size st" "accuracy st' = accuracy st" using r by simp_all
  show "\<forall>a b. (a, b) \<noteq> (source, dest) \<longrightarrow>
           UnsatisfiedDemand (edges st' a b) = UnsatisfiedDemand (edges st a b)"
    using r(1,5) by (auto simp: edge_update_def)
  show "unat (UnsatisfiedDemand (edges st' source dest)) =
           unat (UnsatisfiedDemand (edges st source dest)) - unat pushed"
    using r(1,4,5) by (simp add: edge_update_def SatisfyDemand_def unat_sub)
  show "unat pushed \<le> unat (UnsatisfiedDemand (edges st source dest))"
    using r(4) by (simp add: word_le_nat_alt)
  show "ms = UINT_MAX \<longrightarrow> 1 \<le> pushed \<and> pushed = ?want"
    using r(3) Clamp_bounds [OF one_le_word [OF u], of "Demand (edges st source dest) div acc"]
    by auto
qed

lemma sum_nodes_le:
  fixes f f' :: "NodeID \<Rightarrow> NodeID \<Rightarrow> nat"
  assumes "\<forall>a b. (a, b) \<noteq> (s, d) \<longrightarrow> f' a b = f a b" and "f' s d \<le> f s d"
  shows "(\<Sum>a\<in>A. \<Sum>b\<in>B. f' a b) \<le> (\<Sum>a\<in>A. \<Sum>b\<in>B. f a b)"
proof (intro sum_mono)
  fix a b
  show "f' a b \<le> f a b" using assms by (cases "(a, b) = (s, d)") auto
qed

lemma sum_nodes_less:
  fixes f f' :: "NodeID \<Rightarrow> NodeID \<Rightarrow> nat"
  assumes "\<forall>a b. (a, b) \<noteq> (s, d) \<longrightarrow> f' a b = f a b" and "f' s d < f s d"
    and "finite A" "finite B" "s \<in> A" "d \<in> B"
  shows "(\<Sum>a\<in>A. \<Sum>b\<in>B. f' a b) < (\<Sum>a\<in>A. \<Sum>b\<in>B. f a b)"
proof (rule sum_strict_mono_ex1 [OF assms(3)])
  have le: "\<And>a b. f' a b \<le> f a b"
    using assms(1,2) by (metis less_or_eq_imp_le prod.inject)
  show "\<forall>a\<in>A. (\<Sum>b\<in>B. f' a b) \<le> (\<Sum>b\<in>B. f a b)"
    using le by (auto intro: sum_mono)
  have "(\<Sum>b\<in>B. f' s b) < (\<Sum>b\<in>B. f s b)"
    by (rule sum_strict_mono_ex1 [OF assms(4)]) (use le assms(2,6) in auto)
  then show "\<exists>a\<in>A. (\<Sum>b\<in>B. f' a b) < (\<Sum>b\<in>B. f a b)"
    using assms(5) by blast
qed

lemma PushFlow_total:
  assumes "PushFlow st (source, dest) path acc UINT_MAX = Some (Inr (pushed, st'))"
    and "source \<in> set (nodes (Size st))" and "dest \<in> set (nodes (Size st))"
  shows "total_unsatisfied st' < total_unsatisfied st"
proof -
  note e = PushFlow_effect [OF assms(1)]
  have "1 \<le> pushed" using e(6) by blast
  then have "0 < unat pushed" by (simp add: word_le_nat_alt)
  then have "unat (UnsatisfiedDemand (edges st' source dest)) <
             unat (UnsatisfiedDemand (edges st source dest))"
    using e(4,5) by linarith
  with e(3) have "(\<Sum>a\<in>set (nodes (Size st)). \<Sum>b\<in>set (nodes (Size st)).
           unat (UnsatisfiedDemand (edges st' a b))) <
        (\<Sum>a\<in>set (nodes (Size st)). \<Sum>b\<in>set (nodes (Size st)).
           unat (UnsatisfiedDemand (edges st a b)))"
    using assms(2,3) by (intro sum_nodes_less [where s = source and d = dest]) auto
  then show ?thesis using e(1) by (simp add: total_unsatisfied_def)
qed

lemma MCF2ndPass_dest_total:
  assumes "MCF2ndPass_dest paths source dest (demand_left, st) = Some (Inr (demand_left', st'))"
    and "source \<in> set (nodes (Size st))" and "dest \<in> set (nodes (Size st))"
  shows "Size st' = Size st \<and> total_unsatisfied st' \<le> total_unsatisfied st \<and>
         (demand_left' \<longrightarrow> demand_left \<or> total_unsatisfied st' < total_unsatisfied st)"
proof -
  from assms(1) obtain path where p: "at paths dest = Inr path"
    by (auto simp: MCF2ndPass_dest_def split: sum.splits)
  show ?thesis
  proof (cases "UnsatisfiedDemand (edges st source dest) > 0 \<and>
                (\<exists>q. path = Some q \<and> free_capacity (heap st q) > INT_MIN)")
    case True
    then obtain q where q: "path = Some q" "free_capacity (heap st q) > INT_MIN" by blast
    from assms(1) p True q obtain pushed where
      push: "PushFlow st (source, dest) q (accuracy st) UINT_MAX = Some (Inr (pushed, st'))"
      by (auto simp: MCF2ndPass_dest_def bind_eq_Some_Inr)
    from PushFlow_total [OF push assms(2,3)] PushFlow_effect(1) [OF push]
    show ?thesis by simp
  next
    case False
    then have "st' = st \<and> demand_left' = demand_left"
      using assms(1) p
      by (auto simp: MCF2ndPass_dest_def split: if_splits option.splits)
    then show ?thesis by simp
  qed
qed

lemma MCF2ndPass_dests_total:
  assumes "MCF2ndPass_dests paths source dests (demand_left, st) = Some (Inr (demand_left', st'))"
    and "source \<in> set (nodes (Size st))" and "set dests \<subseteq> set (nodes (Size st))"
  shows "Size st' = Size st \<and> total_unsatisfied st' \<le> total_unsatisfied st \<and>
         (demand_left' \<longrightarrow> demand_left \<or> total_unsatisfied st' < total_unsatisfied st)"
  using assms
proof (induction dests arbitrary: demand_left st)
  case Nil
  then show ?case by simp
next
  case (Cons dest dests)
  from Cons.prems(1) obtain dl1 st1 where
    d: "MCF2ndPass_dest paths source dest (demand_left, st) = Some (Inr (dl1, st1))"
    and r: "MCF2ndPass_dests paths source dests (dl1, st1) = Some (Inr (demand_left', st'))"
    by (auto simp: bind_eq_Some_Inr)
  from MCF2ndPass_dest_total [OF d] Cons.prems(2,3)
  have 1: "Size st1 = Size st" "total_unsatisfied st1 \<le> total_unsatisfied st"
    "dl1 \<longrightarrow> demand_left \<or> total_unsatisfied st1 < total_unsatisfied st"
    by auto
  from Cons.IH [OF r] Cons.prems(2,3) 1(1)
  have 2: "Size st' = Size st1" "total_unsatisfied st' \<le> total_unsatisfied st1"
    "demand_left' \<longrightarrow> dl1 \<or> total_unsatisfied st' < total_unsatisfied st1"
    by auto
  from 1 2 show ?case by auto
qed

lemma Dijkstra_job:
  assumes "Dijkstra IsBetter Comparator Fork' iter ms source st = Some (Inr (st1, paths))"
  shows "edges st1 = edges st \<and> Size st1 = Size st \<and> accuracy st1 = accuracy st"
  using assms
  by (auto simp: Dijkstra_def bind_eq_Some_Inr split: prod.splits)

lemma CleanupPaths_job:
  assumes "CleanupPaths source (st, paths) = Some (Inr st1)"
  shows "edges st1 = edges st \<and> Size st1 = Size st \<and> accuracy st1 = accuracy st"
  using assms
  by (auto simp: CleanupPaths_def bind_eq_Some_Inr split: sum.splits)

lemma total_unsatisfied_cong:
  "edges st1 = edges st \<Longrightarrow> Size st1 = Size st \<Longrightarrow> total_unsatisfied st1 = total_unsatisfied st"
  by (simp add: total_unsatisfied_def)

lemma MCF2ndPass_source_total:
  assumes "MCF2ndPass_source ratio flow_edges source (demand_left, st) =
             Some (Inr (demand_left', st'))"
    and "source \<in> set (nodes (Size st))"
  shows "Size st' = Size st \<and> total_unsatisfied st' \<le> total_unsatisfied st \<and>
         (demand_left' \<longrightarrow> demand_left \<or> total_unsatisfied st' < total_unsatisfied st)"
proof -
  from assms(1) obtain st1 paths st2 where
    s: "Dijkstra (CapacityAnnotation_IsBetter ratio) (CapacityAnnotation_Comparator ratio)
          Fork flow_edges UINT_MAX source st = Some (Inr (st1, paths))"
    and d: "MCF2ndPass_dests paths source (nodes (Size st1)) (demand_left, st1) =
              Some (Inr (demand_left', st2))"
    and c: "CleanupPaths source (st2, paths) = Some (Inr st')"
    by (auto simp: MCF2ndPass_source_def bind_eq_Some_Inr)
  note j = Dijkstra_job [OF s]
  from MCF2ndPass_dests_total [OF d] assms(2) j
  have 2: "Size st2 = Size st1" "total_unsatisfied st2 \<le> total_unsatisfied st1"
    "demand_left' \<longrightarrow> demand_left \<or> total_unsatisfied st2 < total_unsatisfied st1"
    by auto
  note k = CleanupPaths_job [OF c]
  have "total_unsatisfied st1 = total_unsatisfied st" "total_unsatisfied st' = total_unsatisfied st2"
    using j k by (auto intro: total_unsatisfied_cong)
  with 2 j k show ?thesis by auto
qed

lemma MCF2ndPass_sources_total:
  assumes "MCF2ndPass_sources ratio flow_edges sources (demand_left, st) =
             Some (Inr (demand_left', st'))"
    and "set sources \<subseteq> set (nodes (Size st))"
  shows "Size st' = Size st \<and> total_unsatisfied st' \<le> total_unsatisfied st \<and>
         (demand_left' \<longrightarrow> demand_left \<or> total_unsatisfied st' < total_unsatisfied st)"
  using assms
proof (induction sources arbitrary: demand_left st)
  case Nil
  then show ?case by simp
next
  case (Cons source sources)
  from Cons.prems(1) obtain dl1 st1 where
    d: "MCF2ndPass_source ratio flow_edges source (demand_left, st) = Some (Inr (dl1, st1))"
    and r: "MCF2ndPass_sources ratio flow_edges sources (dl1, st1) =
              Some (Inr (demand_left', st'))"
    by (auto simp: bind_eq_Some_Inr)
  from MCF2ndPass_source_total [OF d] Cons.prems(2)
  have 1: "Size st1 = Size st" "total_unsatisfied st1 \<le> total_unsatisfied st"
    "dl1 \<longrightarrow> demand_left \<or> total_unsatisfied st1 < total_unsatisfied st"
    by auto
  from Cons.IH [OF r] Cons.prems(2) 1(1)
  have 2: "Size st' = Size st1" "total_unsatisfied st' \<le> total_unsatisfied st1"
    "demand_left' \<longrightarrow> dl1 \<or> total_unsatisfied st' < total_unsatisfied st1"
    by auto
  from 1 2 show ?case by auto
qed

lemma below_less:
  fixes r :: "('a :: finite \<times> 'a) set"
  assumes "acyclic r" and "(x, y) \<in> r"
  shows "below r y < below r x"
proof -
  have "{z. (y, z) \<in> r\<^sup>+} \<subset> {z. (x, z) \<in> r\<^sup>+}"
  proof
    show "{z. (y, z) \<in> r\<^sup>+} \<subseteq> {z. (x, z) \<in> r\<^sup>+}"
      using assms(2) by (auto intro: trancl_into_trancl2)
    have "y \<in> {z. (x, z) \<in> r\<^sup>+}" using assms(2) by auto
    moreover have "y \<notin> {z. (y, z) \<in> r\<^sup>+}" using assms(1) by (auto simp: acyclic_def)
    ultimately show "{z. (y, z) \<in> r\<^sup>+} \<noteq> {z. (x, z) \<in> r\<^sup>+}" by blast
  qed
  then show ?thesis unfolding below_def by (intro psubset_card_mono) simp_all
qed

lemma above_less:
  fixes r :: "('a :: finite \<times> 'a) set"
  assumes "acyclic r" and "(x, y) \<in> r"
  shows "above r x < above r y"
proof -
  have "{z. (z, x) \<in> r\<^sup>+} \<subset> {z. (z, y) \<in> r\<^sup>+}"
  proof
    show "{z. (z, x) \<in> r\<^sup>+} \<subseteq> {z. (z, y) \<in> r\<^sup>+}"
      using assms(2) by (auto intro: trancl_into_trancl)
    have "x \<in> {z. (z, y) \<in> r\<^sup>+}" using assms(2) by auto
    moreover have "x \<notin> {z. (z, x) \<in> r\<^sup>+}" using assms(1) by (auto simp: acyclic_def)
    ultimately show "{z. (z, x) \<in> r\<^sup>+} \<noteq> {z. (z, y) \<in> r\<^sup>+}" by blast
  qed
  then show ?thesis unfolding above_def by (intro psubset_card_mono) simp_all
qed

lemma set_erase_mset: "mset (set_erase cmp x xs) \<subseteq># mset xs"
proof (induction xs)
  case Nil
  then show ?case by simp
next
  case (Cons y ys)
  then show ?case by (auto intro: subset_mset.order_trans)
qed

lemma set_insert_mset: "mset (set_insert cmp x xs) \<subseteq># add_mset x (mset xs)"
proof (induction xs)
  case Nil
  then show ?case by simp
next
  case (Cons y ys)
  have "add_mset y (mset (set_insert cmp x ys)) \<subseteq># add_mset x (add_mset y (mset ys))"
    using Cons by (simp add: add_mset_commute)
  then show ?case by (auto intro: subset_mset.order_trans)
qed

lemma Detach_node: "node (Detach h this p) = node (h p)"
  by (simp add: Detach_def Let_def split: option.splits)

lemma Detach_parent: "parent (Detach h this p) = (if p = this then None else parent (h p))"
  by (auto simp: Detach_def Let_def split: option.splits)

lemma Detach_flow: "flow (Detach h this p) = flow (h p)"
  by (simp add: Detach_def Let_def split: option.splits)

lemma Fork_node: "node (Fork h this base cap free_cap dist p) = node (h p)"
  by (simp add: Fork_def Let_def Detach_node)

lemma Fork_parent:
  "parent (Fork h this base cap free_cap dist p) =
     (if p = this \<and> this \<noteq> base then Some base else parent (h p))"
  by (simp add: Fork_def Let_def Detach_parent)

lemma at_search_paths:
  "at (map Some [b..<b + sz]) to =
     (if unat to < sz then Inr (Some (b + unat to)) else Inl OutOfRange)"
  by (simp add: at_def)

lemma search_heap_cong:
  assumes "\<And>q. node (h' q) = node (h q)" and "\<And>q. parent (h' q) = parent (h q)"
  shows "search_heap E b sz h' = search_heap E b sz h"
  by (simp add: search_heap_def assms)

lemma search_heap_Fork:
  assumes inv: "search_heap E b sz h" and "m < sz" and "k < sz"
    and e: "(node (h (b + m)), node (h (b + k))) \<in> E"
  shows "search_heap E b sz (Fork h (b + k) (b + m) cap free_cap dist)"
  unfolding search_heap_def Fork_node Fork_parent
  using assms unfolding search_heap_def by auto

lemma search_heap_Detach:
  assumes inv: "search_heap E b sz h"
  shows "search_heap E b sz (Detach h p)"
  unfolding search_heap_def Detach_node Detach_parent
  using assms unfolding search_heap_def by auto

lemma set_insert_erase_set:
  "set (set_insert cmp x (set_erase cmp' x xs)) \<subseteq> insert x (set xs)"
proof -
  have "mset (set_insert cmp x (set_erase cmp' x xs)) \<subseteq># add_mset x (mset xs)"
    using set_insert_mset [of cmp x "set_erase cmp' x xs"] set_erase_mset [of cmp' x xs]
    by (meson mset_subset_eq_add_mset_cancel subset_mset.order_trans)
  from set_mset_mono [OF this] show ?thesis by simp
qed

lemma Dijkstra_relax_ok:
  assumes inv: "search_heap E b sz h" and m: "m < sz"
    and fr: "from' = node (h (b + m))"
    and edge: "to \<noteq> from' \<Longrightarrow> (from', to) \<in> E"
    and wf: "\<And>to. (from', to) \<in> E \<Longrightarrow> unat to < sz \<and> Distance (job from' to) < UINT_MAX"
    and annos: "set annos \<subseteq> {b..<b + sz}"
  shows "\<exists>h' annos'.
     Dijkstra_relax IsBetter Comparator Fork job ms (map Some [b..<b + sz]) (b + m) from' to
       (h, annos) = Inr (h', annos') \<and>
     search_heap E b sz h' \<and> set annos' \<subseteq> {b..<b + sz} \<and> (\<forall>p. node (h' p) = node (h p)) \<and>
     (mset annos' = mset annos \<or>
      (to \<noteq> from' \<and> mset annos' \<subseteq># add_mset (b + unat to) (mset annos)))"
proof (cases "to = from'")
  case True
  with inv annos show ?thesis by (simp add: Dijkstra_relax_def)
next
  case False
  from wf [OF edge [OF False]] have r: "unat to < sz" and d: "Distance (job from' to) < UINT_MAX"
    by simp_all
  let ?cap = "Dijkstra_capacity ms (Capacity (job from' to))"
  let ?free = "sint (?cap - Flow (job from' to))"
  let ?dist = "Distance (job from' to) + 1"
  let ?dest = "b + unat to"
  have nd: "node (h ?dest) = to" using inv r by (simp add: search_heap_def)
  show ?thesis
  proof (cases "IsBetter (h ?dest) (h (b + m)) ?cap ?free ?dist")
    case nb: False
    with False r d inv annos show ?thesis
      by (simp add: Dijkstra_relax_def Let_def at_search_paths)
  next
    case ib: True
    let ?h = "Fork h ?dest (b + m) ?cap ?free ?dist"
    let ?annos = "set_insert (Comparator ?h) ?dest (set_erase (Comparator h) ?dest annos)"
    have res: "Dijkstra_relax IsBetter Comparator Fork job ms (map Some [b..<b + sz]) (b + m)
        from' to (h, annos) = Inr (?h, ?annos)"
      using False r d ib by (simp add: Dijkstra_relax_def Let_def at_search_paths)
    have i: "search_heap E b sz ?h"
      using edge [OF False] by (intro search_heap_Fork [OF inv m r]) (simp add: nd fr)
    have s: "set ?annos \<subseteq> {b..<b + sz}"
      using set_insert_erase_set [of "Comparator ?h" ?dest "Comparator h" annos] annos r
      by auto
    have ms: "mset ?annos \<subseteq># add_mset ?dest (mset annos)"
      using set_insert_mset [of "Comparator ?h" ?dest "set_erase (Comparator h) ?dest annos"]
        set_erase_mset [of "Comparator h" ?dest annos]
      by (meson mset_subset_eq_add_mset_cancel subset_mset.order_trans)
    from res i s ms False show ?thesis by (simp add: Fork_node)
  qed
qed

lemma Dijkstra_for_ok:
  assumes m: "m < sz"
    and wf: "\<And>to. (from', to) \<in> E \<Longrightarrow> unat to < sz \<and> Distance (job from' to) < UINT_MAX"
  shows "search_heap E b sz h \<Longrightarrow> from' = node (h (b + m)) \<Longrightarrow>
     (\<And>to. to \<in> set tos \<Longrightarrow> to \<noteq> from' \<Longrightarrow> (from', to) \<in> E) \<Longrightarrow>
     set annos \<subseteq> {b..<b + sz} \<Longrightarrow>
     \<exists>h' annos' K.
       Dijkstra_for IsBetter Comparator Fork job ms (map Some [b..<b + sz]) (b + m) from' tos
         (h, annos) = Inr (h', annos') \<and>
       search_heap E b sz h' \<and> set annos' \<subseteq> {b..<b + sz} \<and> (\<forall>p. node (h' p) = node (h p)) \<and>
       mset annos' \<subseteq># mset annos + K \<and> (\<forall>k \<in># K. (from', node (h k)) \<in> E)"
proof (induction tos arbitrary: h annos)
  case Nil
  then show ?case by (intro exI [of _ h] exI [of _ annos] exI [of _ "{#}"]) simp
next
  case (Cons to tos)
  have e: "to \<noteq> from' \<Longrightarrow> (from', to) \<in> E" using Cons.prems(3) by simp
  from Dijkstra_relax_ok [where E = E and b = b and sz = sz and h = h and m = m
      and from' = from' and to = to and job = job and annos = annos and IsBetter = IsBetter
      and Comparator = Comparator and ms = ms, OF Cons.prems(1) m Cons.prems(2) e wf
      Cons.prems(4)]
  obtain h1 annos1 where
    r: "Dijkstra_relax IsBetter Comparator Fork job ms (map Some [b..<b + sz]) (b + m) from' to
          (h, annos) = Inr (h1, annos1)"
    and i: "search_heap E b sz h1" and s: "set annos1 \<subseteq> {b..<b + sz}"
    and n: "\<And>p. node (h1 p) = node (h p)"
    and ms: "mset annos1 = mset annos \<or>
      (to \<noteq> from' \<and> mset annos1 \<subseteq># add_mset (b + unat to) (mset annos))"
    by blast
  have f1: "from' = node (h1 (b + m))" using Cons.prems(2) n by simp
  have e1: "\<And>to. to \<in> set tos \<Longrightarrow> to \<noteq> from' \<Longrightarrow> (from', to) \<in> E"
    using Cons.prems(3) by simp
  from Cons.IH [OF i f1 e1 s]
  obtain h2 annos2 K where
    r2: "Dijkstra_for IsBetter Comparator Fork job ms (map Some [b..<b + sz]) (b + m) from' tos
          (h1, annos1) = Inr (h2, annos2)"
    and i2: "search_heap E b sz h2" and s2: "set annos2 \<subseteq> {b..<b + sz}"
    and n2: "\<And>p. node (h2 p) = node (h1 p)"
    and ms2: "mset annos2 \<subseteq># mset annos1 + K" and k2: "\<forall>k \<in># K. (from', node (h1 k)) \<in> E"
    by blast
  have res: "Dijkstra_for IsBetter Comparator Fork job ms (map Some [b..<b + sz]) (b + m) from'
      (to # tos) (h, annos) = Inr (h2, annos2)"
    using r r2 by simp
  from ms show ?case
  proof
    assume "mset annos1 = mset annos"
    with ms2 have "mset annos2 \<subseteq># mset annos + K" by simp
    with res i2 s2 n n2 k2 show ?thesis
      by (intro exI [of _ h2] exI [of _ annos2] exI [of _ K]) simp
  next
    assume a: "to \<noteq> from' \<and> mset annos1 \<subseteq># add_mset (b + unat to) (mset annos)"
    then have "mset annos1 + K \<subseteq># mset annos + add_mset (b + unat to) K" by simp
    with ms2 have ms3: "mset annos2 \<subseteq># mset annos + add_mset (b + unat to) K"
      by (rule subset_mset.order_trans)
    from a e wf have "unat to < sz" "(from', to) \<in> E" by simp_all
    moreover from this Cons.prems(1) have "node (h (b + unat to)) = to"
      by (simp add: search_heap_def)
    ultimately have "\<forall>k \<in># add_mset (b + unat to) K. (from', node (h k)) \<in> E"
      using k2 n by simp
    with res i2 s2 n n2 ms3 show ?thesis
      by (intro exI [of _ h2] exI [of _ annos2] exI [of _ "add_mset (b + unat to) K"] conjI)
        simp_all
  qed
qed

lemma Dijkstra_while_ok:
  fixes rk :: "NodeID \<Rightarrow> nat"
  assumes rk: "\<And>from' to. (from', to) \<in> E \<Longrightarrow> rk to < rk from'"
    and E: "E = share_links iter source_node"
    and wf: "\<And>from' to. (from', to) \<in> E \<Longrightarrow> from' \<in> set (nodes sz) \<Longrightarrow>
               unat to < sz \<and> Distance (job from' to) < UINT_MAX"
  shows "search_heap E b sz h \<Longrightarrow> set annos \<subseteq> {b..<b + sz} \<Longrightarrow>
     \<exists>h'. Dijkstra_while IsBetter Comparator Fork iter job ms source_node
            (map Some [b..<b + sz]) h annos = Some (Inr h') \<and>
          search_heap E b sz h'"
proof (induction "image_mset (\<lambda>p. rk (node (h p))) (mset annos)" arbitrary: h annos
    rule: less_induct)
  case less
  show ?case
  proof (cases annos)
    case Nil
    with less.prems show ?thesis by (subst Dijkstra_while.simps) simp
  next
    case (Cons source annos')
    from less.prems(2) Cons obtain m where m: "m < sz" and src: "source = b + m"
      and s': "set annos' \<subseteq> {b..<b + sz}"
      by (auto simp: le_iff_add)
    let ?from = "node (h source)"
    have fn: "?from = of_nat m" using less.prems(1) m src by (simp add: search_heap_def)
    then have fin: "?from \<in> set (nodes sz)" using m by (simp add: nodes_def)
    have w: "\<And>to. (?from, to) \<in> E \<Longrightarrow> unat to < sz \<and> Distance (job ?from to) < UINT_MAX"
      using wf fin by blast
    have e: "\<And>to. to \<in> set (iter source_node ?from) \<Longrightarrow> to \<noteq> ?from \<Longrightarrow> (?from, to) \<in> E"
      by (simp add: E share_links_def)
    from Dijkstra_for_ok [where E = E and b = b and sz = sz and h = h and m = m
        and from' = ?from and tos = "iter source_node ?from" and job = job and annos = annos'
        and IsBetter = IsBetter and Comparator = Comparator and ms = ms,
        OF m w less.prems(1) _ e s'] src
    obtain h1 annos1 K where
      r: "Dijkstra_for IsBetter Comparator Fork job ms (map Some [b..<b + sz]) source ?from
            (iter source_node ?from) (h, annos') = Inr (h1, annos1)"
      and i: "search_heap E b sz h1" and s: "set annos1 \<subseteq> {b..<b + sz}"
      and n: "\<And>p. node (h1 p) = node (h p)"
      and ms: "mset annos1 \<subseteq># mset annos' + K" and k: "\<forall>k \<in># K. (?from, node (h k)) \<in> E"
      by auto
    let ?w = "\<lambda>p. rk (node (h p))"
    have "image_mset ?w (mset annos1) \<subseteq># image_mset ?w (mset annos' + K)"
      using ms by (rule image_mset_subseteq_mono)
    then have le: "image_mset ?w (mset annos1) \<le> image_mset ?w (mset annos') + image_mset ?w K"
      by (simp add: subset_eq_imp_le_multiset)
    have "image_mset ?w K < {#?w source#}"
      using k rk by (intro ex_gt_imp_less_multiset) auto
    then have "image_mset ?w (mset annos') + image_mset ?w K <
        image_mset ?w (mset annos') + {#?w source#}"
      by (rule add_strict_left_mono)
    with le have "image_mset ?w (mset annos1) < image_mset ?w (mset annos') + {#?w source#}"
      by (rule le_less_trans)
    then have "image_mset ?w (mset annos1) < image_mset ?w (mset annos)"
      unfolding Cons by simp
    then have "image_mset (\<lambda>p. rk (node (h1 p))) (mset annos1) <
        image_mset (\<lambda>p. rk (node (h p))) (mset annos)"
      by (simp add: n)
    from less.hyps [OF this i s] r show ?thesis
      unfolding Cons by (subst Dijkstra_while.simps) simp
  qed
qed

lemma set_insert_set: "set (set_insert cmp x xs) \<subseteq> insert x (set xs)"
  using set_mset_mono [OF set_insert_mset [of cmp x xs]] by simp

lemma Dijkstra_init_result:
  "k \<le> sz \<Longrightarrow>
   Dijkstra_init Comparator source_node [k..<sz] (h, b0 + k, paths, annos) =
     (h', b', paths', annos') \<Longrightarrow>
   b' = b0 + sz \<and> length paths' = length paths \<and>
   (\<forall>n < length paths. paths' ! n = (if k \<le> n \<and> n < sz then Some (b0 + n) else paths ! n)) \<and>
   (\<forall>p. h' p = (if b0 + k \<le> p \<and> p < b0 + sz
                 then Path_new (of_nat (p - b0)) (of_nat (p - b0) = source_node) else h p)) \<and>
   set annos' \<subseteq> set annos \<union> {b0 + k..<b0 + sz}"
proof (induction "sz - k" arbitrary: k h paths annos)
  case 0
  then show ?case by auto
next
  case (Suc d)
  then have k: "k < sz" and u: "[k..<sz] = k # [Suc k..<sz]" by (simp_all add: upt_conv_Cons)
  let ?h = "h(b0 + k := Path_new (of_nat k) (of_nat k = source_node))"
  let ?annos = "set_insert (Comparator ?h) (b0 + k) annos"
  from Suc.prems(2) have r: "Dijkstra_init Comparator source_node [Suc k..<sz]
      (?h, b0 + Suc k, paths[k := Some (b0 + k)], ?annos) = (h', b', paths', annos')"
    unfolding u by (simp add: Let_def)
  have d: "d = sz - Suc k" using Suc.hyps(2) by simp
  from Suc.hyps(1) [OF d _ r] k
  have ih: "b' = b0 + sz" "length paths' = length paths"
    "\<forall>n < length paths. paths' ! n =
       (if Suc k \<le> n \<and> n < sz then Some (b0 + n) else paths[k := Some (b0 + k)] ! n)"
    "\<forall>p. h' p = (if b0 + Suc k \<le> p \<and> p < b0 + sz
                 then Path_new (of_nat (p - b0)) (of_nat (p - b0) = source_node) else ?h p)"
    "set annos' \<subseteq> set ?annos \<union> {b0 + Suc k..<b0 + sz}"
    by simp_all
  have 3: "\<forall>n < length paths. paths' ! n =
      (if k \<le> n \<and> n < sz then Some (b0 + n) else paths ! n)"
  proof (intro allI impI)
    fix n assume n: "n < length paths"
    show "paths' ! n = (if k \<le> n \<and> n < sz then Some (b0 + n) else paths ! n)"
    proof (cases "n = k")
      case True
      with ih(3) n k show ?thesis by simp
    next
      case False
      with ih(3) n show ?thesis by auto
    qed
  qed
  have 4: "\<forall>p. h' p = (if b0 + k \<le> p \<and> p < b0 + sz
                 then Path_new (of_nat (p - b0)) (of_nat (p - b0) = source_node) else h p)"
  proof
    fix p
    show "h' p = (if b0 + k \<le> p \<and> p < b0 + sz
                 then Path_new (of_nat (p - b0)) (of_nat (p - b0) = source_node) else h p)"
    proof (cases "p = b0 + k")
      case True
      with ih(4) k show ?thesis by simp
    next
      case False
      with ih(4) show ?thesis by auto
    qed
  qed
  have 5: "set annos' \<subseteq> set annos \<union> {b0 + k..<b0 + sz}"
  proof
    fix x assume "x \<in> set annos'"
    with ih(5) have "x \<in> set ?annos \<or> x \<in> {b0 + Suc k..<b0 + sz}" by blast
    then show "x \<in> set annos \<union> {b0 + k..<b0 + sz}"
    proof
      assume "x \<in> set ?annos"
      with set_insert_set [of "Comparator ?h" "b0 + k" annos]
      have "x = b0 + k \<or> x \<in> set annos" by blast
      with k show ?thesis by auto
    next
      assume "x \<in> {b0 + Suc k..<b0 + sz}"
      then show ?thesis by simp
    qed
  qed
  from ih(1,2) 3 4 5 show ?case by blast
qed

lemma Dijkstra_ok:
  fixes iter :: "NodeID \<Rightarrow> NodeID \<Rightarrow> NodeID list"
  assumes a: "acyclic (share_links iter source_node)"
    and wf: "\<And>from' to. (from', to) \<in> share_links iter source_node \<Longrightarrow>
               from' \<in> set (nodes (Size st)) \<Longrightarrow>
               unat to < Size st \<and> Distance (edges st from' to) < UINT_MAX"
  shows "\<exists>h'. Dijkstra IsBetter Comparator Fork iter ms source_node st =
           Some (Inr (st\<lparr>heap := h', brk := brk st + Size st\<rparr>,
                      map Some [brk st..<brk st + Size st])) \<and>
         search_heap (share_links iter source_node) (brk st) (Size st) h'"
proof -
  let ?E = "share_links iter source_node"
  let ?sz = "Size st" and ?b = "brk st"
  obtain h b paths annos where
    i: "Dijkstra_init Comparator source_node [0..<?sz]
          (heap st, ?b + 0, replicate ?sz None, []) = (h, b, paths, annos)"
    by (cases "Dijkstra_init Comparator source_node [0..<?sz]
          (heap st, ?b + 0, replicate ?sz None, [])") auto
  from Dijkstra_init_result [OF _ i]
  have r: "b = ?b + ?sz" "length paths = ?sz"
    "\<forall>n < ?sz. paths ! n = Some (?b + n)"
    "\<forall>p. h p = (if ?b \<le> p \<and> p < ?b + ?sz
              then Path_new (of_nat (p - ?b)) (of_nat (p - ?b) = source_node) else heap st p)"
    "set annos \<subseteq> {?b..<?b + ?sz}"
    by simp_all
  have p: "paths = map Some [?b..<?b + ?sz]"
    using r(2,3) by (intro nth_equalityI) simp_all
  have inv: "search_heap ?E ?b ?sz h"
    unfolding search_heap_def using r(4) by (simp add: Path_new_def)
  have rk: "\<And>from' to. (from', to) \<in> ?E \<Longrightarrow> below ?E to < below ?E from'"
    using below_less [OF a] .
  from Dijkstra_while_ok [where rk = "below ?E" and E = ?E and iter = iter
      and source_node = source_node and sz = ?sz and job = "edges st" and b = ?b and h = h
      and annos = annos and IsBetter = IsBetter and Comparator = Comparator and ms = ms,
      OF rk refl wf inv r(5)]
  obtain h' where w: "Dijkstra_while IsBetter Comparator Fork iter (edges st) ms source_node
        (map Some [?b..<?b + ?sz]) h annos = Some (Inr h')"
    and inv': "search_heap ?E ?b ?sz h'"
    by blast
  have "Dijkstra IsBetter Comparator Fork iter ms source_node st =
      Some (Inr (st\<lparr>heap := h', brk := brk st + Size st\<rparr>,
                 map Some [brk st..<brk st + Size st]))"
    using i w p r(1) by (simp add: Dijkstra_def)
  with inv' show ?thesis by blast
qed

lemma path_chain_ok:
  fixes ht :: "NodeID \<Rightarrow> nat"
  assumes ht: "\<And>x y. (x, y) \<in> E \<Longrightarrow> ht x < ht y"
    and inv: "search_heap E b sz h"
  shows "n < sz \<Longrightarrow> \<exists>c. path_chain h (b + n) = Some c"
proof (induction "ht (node (h (b + n)))" arbitrary: n rule: less_induct)
  case less
  show ?case
  proof (cases "parent (h (b + n))")
    case None
    then show ?thesis by (subst path_chain.simps) simp
  next
    case (Some q)
    with inv less.prems obtain m where m: "m < sz" "q = b + m"
      and e: "(node (h q), node (h (b + n))) \<in> E"
      unfolding search_heap_def by blast
    from ht [OF e] m(2) have "ht (node (h (b + m))) < ht (node (h (b + n)))" by simp
    from less.hyps [OF this m(1)] obtain c where "path_chain h (b + m) = Some c" by blast
    with Some m(2) show ?thesis by (subst path_chain.simps) simp
  qed
qed

lemma heap_fold_flow_fields:
  "node (fold (\<lambda>p h. h(p := (h p)\<lparr>flow := g h p\<rparr>)) chain h q) = node (h q) \<and>
   parent (fold (\<lambda>p h. h(p := (h p)\<lparr>flow := g h p\<rparr>)) chain h q) = parent (h q)"
  by (induction chain arbitrary: h) simp_all

lemma edge_update_Distance:
  "(\<And>e. Distance (g e) = Distance e) \<Longrightarrow>
   Distance (edge_update g l job a b) = Distance (job a b)"
  by (cases l) (simp add: edge_update_def)

lemma fold_edge_update_Distance:
  "(\<And>e. Distance (g e) = Distance e) \<Longrightarrow>
   Distance (fold (edge_update g) legs job a b) = Distance (job a b)"
proof (induction legs arbitrary: job)
  case Nil
  then show ?case by simp
next
  case (Cons l legs)
  from Cons.IH [OF Cons.prems, of "edge_update g l job"]
    edge_update_Distance [of g l job a b, OF Cons.prems]
  show ?case by simp
qed

lemma PushFlow_frame:
  assumes "PushFlow st (source, dest) path acc ms = Some (Inr (pushed, st'))"
  shows "node (heap st' q) = node (heap st q)" and "parent (heap st' q) = parent (heap st q)"
    and "Distance (edges st' a b) = Distance (edges st a b)"
proof -
  from assms obtain want st1 where
    a: "AddFlow st path want ms = Some (Inr (pushed, st1))"
    and s': "st' = st1\<lparr>edges := edge_update (SatisfyDemand pushed) (source, dest) (edges st1)\<rparr>"
    by (auto simp: PushFlow_def Let_def bind_eq_Some_Inr split: if_splits)
  from a obtain chain where
    s1: "st1 = st\<lparr>edges := fold (edge_update (\<lambda>e. e\<lparr>Flow := Flow e + pushed\<rparr>))
                      (path_legs (heap st) chain) (edges st),
                 heap := fold (\<lambda>p h. h(p := (h p)\<lparr>flow := flow (h p) + pushed\<rparr>)) chain
                      (heap st)\<rparr>"
    by (auto simp: AddFlow_def AddFlow_apply_def split: option.splits)
  define f where "f = pushed"
  have s: "st' = st\<lparr>edges := edge_update (SatisfyDemand pushed) (source, dest)
                   (fold (edge_update (\<lambda>e. e\<lparr>Flow := Flow e + f\<rparr>))
                      (path_legs (heap st) chain) (edges st)),
                 heap := fold (\<lambda>p h. h(p := (h p)\<lparr>flow := flow (h p) + f\<rparr>)) chain (heap st)\<rparr>"
    unfolding s' s1 f_def by simp
  show "node (heap st' q) = node (heap st q)" "parent (heap st' q) = parent (heap st q)"
    unfolding s using heap_fold_flow_fields [of "\<lambda>h p. flow (h p) + f" chain "heap st" q]
    by simp_all
  have "Distance (edges st' a b) =
      Distance (fold (edge_update (\<lambda>e. e\<lparr>Flow := Flow e + f\<rparr>))
                      (path_legs (heap st) chain) (edges st) a b)"
    unfolding s by (simp add: edge_update_Distance SatisfyDemand_def)
  also have "\<dots> = Distance (edges st a b)"
    by (rule fold_edge_update_Distance) simp
  finally show "Distance (edges st' a b) = Distance (edges st a b)" .
qed

lemma MCF2ndPass_dest_ok:
  fixes ht :: "NodeID \<Rightarrow> nat"
  assumes ht: "\<And>x y. (x, y) \<in> E \<Longrightarrow> ht x < ht y"
    and inv: "search_heap E b sz (heap st)" and acc: "accuracy st \<noteq> 0"
    and d: "unat dest < sz"
  shows "\<exists>demand_left' st'.
     MCF2ndPass_dest (map Some [b..<b + sz]) source dest (demand_left, st) =
       Some (Inr (demand_left', st')) \<and>
     search_heap E b sz (heap st') \<and> accuracy st' = accuracy st \<and> Size st' = Size st \<and>
     (\<forall>a b. Distance (edges st' a b) = Distance (edges st a b))"
proof (cases "UnsatisfiedDemand (edges st source dest) > 0 \<and>
              free_capacity (heap st (b + unat dest)) > INT_MIN")
  case False
  with d inv show ?thesis
    by (auto simp: MCF2ndPass_dest_def at_search_paths)
next
  case True
  from path_chain_ok [where ht = ht and E = E, OF ht inv d] obtain c where
    c: "path_chain (heap st) (b + unat dest) = Some c" by blast
  from PushFlow_result [OF _ acc c, of source dest UINT_MAX] True
  obtain pushed st' where
    p: "PushFlow st (source, dest) (b + unat dest) (accuracy st) UINT_MAX =
          Some (Inr (pushed, st'))"
    by blast
  note f = PushFlow_frame [OF p] and e = PushFlow_effect(1,2) [OF p]
  have "search_heap E b sz (heap st')"
    using search_heap_cong [of "heap st'" "heap st" E b sz] f(1,2) inv by simp
  with p True d f(3) e show ?thesis
    by (simp add: MCF2ndPass_dest_def at_search_paths)
qed

lemma MCF2ndPass_dests_ok:
  fixes ht :: "NodeID \<Rightarrow> nat"
  assumes ht: "\<And>x y. (x, y) \<in> E \<Longrightarrow> ht x < ht y"
  shows "search_heap E b sz (heap st) \<Longrightarrow> accuracy st \<noteq> 0 \<Longrightarrow> \<forall>dest \<in> set dests. unat dest < sz \<Longrightarrow>
     \<exists>demand_left' st'.
       MCF2ndPass_dests (map Some [b..<b + sz]) source dests (demand_left, st) =
         Some (Inr (demand_left', st')) \<and>
       search_heap E b sz (heap st') \<and> accuracy st' = accuracy st \<and> Size st' = Size st \<and>
       (\<forall>a b. Distance (edges st' a b) = Distance (edges st a b))"
proof (induction dests arbitrary: demand_left st)
  case Nil
  then show ?case by simp
next
  case (Cons dest dests)
  from Cons.prems(3) have d: "unat dest < sz" and ds: "\<forall>dest \<in> set dests. unat dest < sz"
    by simp_all
  from MCF2ndPass_dest_ok [where ht = ht and E = E and source = source
      and demand_left = demand_left, OF ht Cons.prems(1,2) d]
  obtain dl1 st1 where
    1: "MCF2ndPass_dest (map Some [b..<b + sz]) source dest (demand_left, st) =
          Some (Inr (dl1, st1))"
    and i1: "search_heap E b sz (heap st1)" and a1: "accuracy st1 = accuracy st"
    and s1: "Size st1 = Size st"
    and d1: "\<And>a b. Distance (edges st1 a b) = Distance (edges st a b)"
    by blast
  from a1 Cons.prems(2) have "accuracy st1 \<noteq> 0" by simp
  from Cons.IH [OF i1 this ds, where demand_left = dl1]
  obtain dl2 st2 where
    2: "MCF2ndPass_dests (map Some [b..<b + sz]) source dests (dl1, st1) =
          Some (Inr (dl2, st2))"
    and i2: "search_heap E b sz (heap st2)" and a2: "accuracy st2 = accuracy st1"
    and s2: "Size st2 = Size st1"
    and d2: "\<And>a b. Distance (edges st2 a b) = Distance (edges st1 a b)"
    by blast
  from 1 2 i2 a1 a2 s1 s2 d1 d2 show ?case by simp
qed

lemma search_paths_update:
  "search_paths b sz paths \<Longrightarrow> search_paths b sz (paths[i := None])"
  unfolding search_paths_def
proof (intro conjI allI impI)
  assume a: "length paths = sz \<and>
    (\<forall>i < sz. paths ! i = None \<or> (\<exists>n < sz. paths ! i = Some (b + n)))"
  then show "length (paths[i := None]) = sz" by simp
  fix j assume j: "j < sz"
  show "paths[i := None] ! j = None \<or> (\<exists>n < sz. paths[i := None] ! j = Some (b + n))"
  proof (cases "j = i")
    case True
    with a j show ?thesis by simp
  next
    case False
    with a j show ?thesis by simp
  qed
qed

lemma unat_of_nat_le: "unat (of_nat n :: NodeID) \<le> n"
  by (simp add: unat_of_nat)

lemma CleanupPaths_while_None:
  "CleanupPaths_while source None (h, paths) = Some (Inr (h, paths))"
  by (subst CleanupPaths_while.simps) simp

lemma CleanupPaths_while_ok:
  fixes ht :: "NodeID \<Rightarrow> nat"
  assumes ht: "\<And>x y. (x, y) \<in> E \<Longrightarrow> ht x < ht y"
  shows "search_heap E b sz h \<Longrightarrow> search_paths b sz paths \<Longrightarrow> n < sz \<Longrightarrow>
     \<exists>h' paths'. CleanupPaths_while source (Some (b + n)) (h, paths) = Some (Inr (h', paths')) \<and>
       search_heap E b sz h' \<and> search_paths b sz paths'"
proof (induction "ht (node (h (b + n)))" arbitrary: n h paths rule: less_induct)
  case less
  let ?p = "b + n"
  show ?case
  proof (cases "Some ?p \<noteq> source \<and> flow (h ?p) = 0")
    case False
    with less.prems show ?thesis by (subst CleanupPaths_while.simps) auto
  next
    case True
    let ?h = "Detach h ?p"
    let ?paths = "if num_children (?h ?p) = 0 then paths[unat (node (?h ?p)) := None] else paths"
    have nd: "node (?h ?p) = of_nat n"
      using less.prems(1,3) by (simp add: Detach_node search_heap_def)
    have len: "unat (node (?h ?p)) < length paths"
      using less.prems(2,3) unat_of_nat_le [of n] by (simp add: nd search_paths_def)
    have step: "CleanupPaths_while source (Some ?p) (h, paths) =
        CleanupPaths_while source (parent (h ?p)) (?h, ?paths)"
      using True len by (subst CleanupPaths_while.simps) simp
    have i: "search_heap E b sz ?h" by (rule search_heap_Detach [OF less.prems(1)])
    have s: "search_paths b sz ?paths"
      using less.prems(2) by (simp add: search_paths_update)
    show ?thesis
    proof (cases "parent (h ?p)")
      case None
      with step i s show ?thesis by (simp add: CleanupPaths_while_None)
    next
      case (Some q)
      with less.prems(1,3) obtain m where m: "m < sz" "q = b + m"
        and e: "(node (h q), node (h ?p)) \<in> E"
        unfolding search_heap_def by blast
      from ht [OF e] m(2) have "ht (node (?h (b + m))) < ht (node (h ?p))"
        by (simp add: Detach_node)
      from less.hyps [OF this i s m(1)] step Some m(2) show ?thesis by simp
    qed
  qed
qed

lemma CleanupPaths_for_ok:
  fixes ht :: "NodeID \<Rightarrow> nat"
  assumes ht: "\<And>x y. (x, y) \<in> E \<Longrightarrow> ht x < ht y"
  shows "search_heap E b sz h \<Longrightarrow> search_paths b sz paths \<Longrightarrow> \<forall>i \<in> set ids. i < sz \<Longrightarrow>
     \<exists>h' paths'. CleanupPaths_for source ids (h, paths) = Some (Inr (h', paths')) \<and>
       search_heap E b sz h' \<and> search_paths b sz paths'"
proof (induction ids arbitrary: h paths)
  case Nil
  then show ?case by simp
next
  case (Cons i ids)
  from Cons.prems(3) have i: "i < sz" and r: "\<forall>i \<in> set ids. i < sz" by simp_all
  show ?case
  proof (cases "paths ! i")
    case None
    with Cons.IH [OF Cons.prems(1,2) r] show ?thesis by simp
  next
    case (Some p)
    with Cons.prems(2) i obtain n where n: "n < sz" "p = b + n"
      unfolding search_paths_def by fastforce
    define h0 where "h0 = (if parent (h p) = source then Detach h p else h)"
    have "search_heap E b sz h0"
      using Cons.prems(1) by (simp add: h0_def search_heap_Detach)
    from CleanupPaths_while_ok [where ht = ht and E = E and source = source, OF ht this
        Cons.prems(2) n(1)]
    obtain h1 paths1 where
      w: "CleanupPaths_while source (Some (b + n)) (h0, paths) = Some (Inr (h1, paths1))"
      and i1: "search_heap E b sz h1" and p1: "search_paths b sz paths1"
      by blast
    have "CleanupPaths_for source (i # ids) (h, paths) =
        bind (CleanupPaths_while source (Some p) (h0, paths)) (CleanupPaths_for source ids)"
      using Some by (simp add: h0_def)
    also have "\<dots> = CleanupPaths_for source ids (h1, paths1)"
      using w n(2) by simp
    finally show ?thesis using Cons.IH [OF i1 p1 r] by simp
  qed
qed

lemma CleanupPaths_ok:
  fixes ht :: "NodeID \<Rightarrow> nat"
  assumes ht: "\<And>x y. (x, y) \<in> E \<Longrightarrow> ht x < ht y"
    and inv: "search_heap E b sz (heap st)" and s: "unat source_id < sz"
  shows "\<exists>h'. CleanupPaths source_id (st, map Some [b..<b + sz]) = Some (Inr (st\<lparr>heap := h'\<rparr>))"
proof -
  let ?paths = "(map Some [b..<b + sz])[unat source_id := None]"
  have p: "search_paths b sz ?paths"
    by (rule search_paths_update) (simp add: search_paths_def)
  from CleanupPaths_for_ok [where ht = ht and E = E and ids = "[0..<sz]"
      and source = "Some (b + unat source_id)", OF ht inv p]
  obtain h' paths' where
    "CleanupPaths_for (Some (b + unat source_id)) [0..<sz] (heap st, ?paths) =
       Some (Inr (h', paths'))"
    by auto
  with s have "CleanupPaths source_id (st, map Some [b..<b + sz]) = Some (Inr (st\<lparr>heap := h'\<rparr>))"
    by (simp add: CleanupPaths_def at_search_paths)
  then show ?thesis by (intro exI [of _ h'])
qed

lemma well_formed_cong:
  assumes "accuracy st' = accuracy st" and "Size st' = Size st"
    and "\<And>a b. Distance (edges st' a b) = Distance (edges st a b)"
  shows "well_formed flow_edges st' = well_formed flow_edges st"
  by (simp add: well_formed_def assms)

lemma nodes_unat: "dest \<in> set (nodes sz) \<Longrightarrow> unat dest < sz"
proof -
  assume "dest \<in> set (nodes sz)"
  then obtain n where "n < sz" "dest = of_nat n" by (auto simp: nodes_def)
  with unat_of_nat_le [of n] show ?thesis by simp
qed

lemma MCF2ndPass_source_ok:
  assumes wf: "well_formed flow_edges st" and src: "source \<in> set (nodes (Size st))"
  shows "\<exists>demand_left' st'.
     MCF2ndPass_source ratio flow_edges source (demand_left, st) =
       Some (Inr (demand_left', st')) \<and>
     accuracy st' = accuracy st \<and> Size st' = Size st \<and>
     (\<forall>a b. Distance (edges st' a b) = Distance (edges st a b))"
proof -
  let ?E = "share_links flow_edges source"
  let ?b = "brk st" and ?sz = "Size st"
  let ?paths = "map Some [?b..<?b + ?sz]"
  from wf src have acc: "accuracy st \<noteq> 0" and a: "acyclic ?E"
    and w: "\<And>from' to. (from', to) \<in> ?E \<Longrightarrow> from' \<in> set (nodes ?sz) \<Longrightarrow>
              unat to < ?sz \<and> Distance (edges st from' to) < UINT_MAX"
    unfolding well_formed_def by blast+
  have ht: "\<And>x y. (x, y) \<in> ?E \<Longrightarrow> above ?E x < above ?E y"
    using above_less [OF a] .
  from Dijkstra_ok [where iter = flow_edges and source_node = source and st = st
      and IsBetter = "CapacityAnnotation_IsBetter ratio"
      and Comparator = "CapacityAnnotation_Comparator ratio" and ms = UINT_MAX, OF a w]
  obtain h1 where
    d: "Dijkstra (CapacityAnnotation_IsBetter ratio) (CapacityAnnotation_Comparator ratio) Fork
          flow_edges UINT_MAX source st =
        Some (Inr (st\<lparr>heap := h1, brk := ?b + ?sz\<rparr>, ?paths))"
    and i1: "search_heap ?E ?b ?sz h1"
    by blast
  let ?st1 = "st\<lparr>heap := h1, brk := ?b + ?sz\<rparr>"
  have i1': "search_heap ?E ?b ?sz (heap ?st1)" using i1 by simp
  have acc1: "accuracy ?st1 \<noteq> 0" using acc by simp
  have ds: "\<forall>dest \<in> set (nodes (Size ?st1)). unat dest < ?sz"
    using nodes_unat by simp
  from MCF2ndPass_dests_ok [where ht = "above ?E" and E = ?E and source = source
      and demand_left = demand_left, OF ht i1' acc1 ds]
  obtain dl2 st2 where
    p: "MCF2ndPass_dests ?paths source (nodes (Size ?st1)) (demand_left, ?st1) =
          Some (Inr (dl2, st2))"
    and i2: "search_heap ?E ?b ?sz (heap st2)" and a2: "accuracy st2 = accuracy ?st1"
    and s2: "Size st2 = Size ?st1"
    and d2: "\<And>a b. Distance (edges st2 a b) = Distance (edges ?st1 a b)"
    by blast
  from CleanupPaths_ok [where ht = "above ?E" and E = ?E and st = st2 and source_id = source,
      OF ht i2 nodes_unat [OF src]]
  obtain h3 where c: "CleanupPaths source (st2, ?paths) = Some (Inr (st2\<lparr>heap := h3\<rparr>))"
    by blast
  have "MCF2ndPass_source ratio flow_edges source (demand_left, st) =
      Some (Inr (dl2, st2\<lparr>heap := h3\<rparr>))"
    using d p c by (simp add: MCF2ndPass_source_def)
  with a2 s2 d2 show ?thesis by simp
qed

lemma MCF2ndPass_sources_ok:
  "well_formed flow_edges st \<Longrightarrow> set sources \<subseteq> set (nodes (Size st)) \<Longrightarrow>
   \<exists>demand_left' st'.
     MCF2ndPass_sources ratio flow_edges sources (demand_left, st) =
       Some (Inr (demand_left', st')) \<and>
     well_formed flow_edges st' \<and> Size st' = Size st"
proof (induction sources arbitrary: demand_left st)
  case Nil
  then show ?case by simp
next
  case (Cons source sources)
  from Cons.prems(2) have src: "source \<in> set (nodes (Size st))" by simp
  from MCF2ndPass_source_ok [OF Cons.prems(1) src, of ratio demand_left]
  obtain dl1 st1 where
    1: "MCF2ndPass_source ratio flow_edges source (demand_left, st) = Some (Inr (dl1, st1))"
    and a1: "accuracy st1 = accuracy st" and s1: "Size st1 = Size st"
    and d1: "\<And>a b. Distance (edges st1 a b) = Distance (edges st a b)"
    by blast
  have w1: "well_formed flow_edges st1"
    using well_formed_cong [OF a1 s1 d1] Cons.prems(1) by simp
  have "set sources \<subseteq> set (nodes (Size st1))" using Cons.prems(2) s1 by simp
  from Cons.IH [OF w1 this, of dl1]
  obtain dl2 st2 where
    2: "MCF2ndPass_sources ratio flow_edges sources (dl1, st1) = Some (Inr (dl2, st2))"
    and w2: "well_formed flow_edges st2" and s2: "Size st2 = Size st1"
    by blast
  from 1 2 w2 s1 s2 show ?case by simp
qed

lemma MCF2ndPass_ok:
  "well_formed flow_edges st \<Longrightarrow>
   \<exists>st'. MCF2ndPass ratio flow_edges st = Some (Inr st') \<and> well_formed flow_edges st'"
proof (induction "total_unsatisfied st" arbitrary: st rule: less_induct)
  case less
  from MCF2ndPass_sources_ok [OF less.prems subset_refl, of ratio False]
  obtain demand_left st1 where
    sw: "MCF2ndPass_sources ratio flow_edges (nodes (Size st)) (False, st) =
           Some (Inr (demand_left, st1))"
    and w1: "well_formed flow_edges st1"
    by blast
  show ?case
  proof (cases demand_left)
    case False
    with sw w1 show ?thesis by (subst MCF2ndPass.simps) simp
  next
    case True
    from MCF2ndPass_sources_total [OF sw] True
    have "total_unsatisfied st1 < total_unsatisfied st" by simp
    from less.hyps [OF this w1] sw True show ?thesis
      by (subst MCF2ndPass.simps) simp
  qed
qed

text \<open>
  C9. On a well-formed job the driver loop of the second pass returns, with a state and
  no failed assertion, and so does each sweep over the sources, which leaves the job
  well formed. A sweep never increases the total unsatisfied demand; a sweep that leaves
  \<open>demand_left\<close> set strictly reduces it, and one that leaves it clear ends the loop. Each
  push of the pass, made with \<open>max_saturation = UINT_MAX\<close>, moves exactly the clamped
  amount, which is at least one unit, and takes it off the unsatisfied demand of the
  edge.
\<close>

theorem MCF2ndPass_terminates:
  "(well_formed flow_edges st \<longrightarrow>
      (\<exists>st'. MCF2ndPass ratio flow_edges st = Some (Inr st')) \<and>
      (\<exists>demand_left st1.
         MCF2ndPass_sources ratio flow_edges (nodes (Size st)) (False, st) =
           Some (Inr (demand_left, st1)) \<and>
         well_formed flow_edges st1)) \<and>
   (MCF2ndPass_sources ratio flow_edges (nodes (Size st)) (False, st) =
      Some (Inr (demand_left, st')) \<longrightarrow>
    total_unsatisfied st' \<le> total_unsatisfied st \<and>
    (demand_left \<longrightarrow> total_unsatisfied st' < total_unsatisfied st) \<and>
    (\<not> demand_left \<longrightarrow> MCF2ndPass ratio flow_edges st = Some (Inr st'))) \<and>
   (PushFlow st (source, dest) path (accuracy st) UINT_MAX = Some (Inr (pushed, st'')) \<longrightarrow>
    1 \<le> pushed \<and>
    pushed = Clamp (Demand (edges st source dest) div accuracy st) 1
               (UnsatisfiedDemand (edges st source dest)) \<and>
    unat (UnsatisfiedDemand (edges st'' source dest)) =
      unat (UnsatisfiedDemand (edges st source dest)) - unat pushed \<and>
    unat pushed \<le> unat (UnsatisfiedDemand (edges st source dest)))"
proof (intro conjI impI)
  assume w: "well_formed flow_edges st"
  from MCF2ndPass_ok [OF w] show "\<exists>st'. MCF2ndPass ratio flow_edges st = Some (Inr st')"
    by blast
  from MCF2ndPass_sources_ok [OF w subset_refl, of ratio False]
  show "\<exists>demand_left st1.
         MCF2ndPass_sources ratio flow_edges (nodes (Size st)) (False, st) =
           Some (Inr (demand_left, st1)) \<and>
         well_formed flow_edges st1"
    by blast
next
  assume sw: "MCF2ndPass_sources ratio flow_edges (nodes (Size st)) (False, st) =
      Some (Inr (demand_left, st'))"
  from MCF2ndPass_sources_total [OF sw]
  show "total_unsatisfied st' \<le> total_unsatisfied st" by simp
  { assume demand_left
    with MCF2ndPass_sources_total [OF sw]
    show "total_unsatisfied st' < total_unsatisfied st" by simp }
  { assume "\<not> demand_left"
    with sw show "MCF2ndPass ratio flow_edges st = Some (Inr st')"
      by (subst MCF2ndPass.simps) simp }
next
  assume p: "PushFlow st (source, dest) path (accuracy st) UINT_MAX = Some (Inr (pushed, st''))"
  note e = PushFlow_effect [OF p]
  from e(6) show "1 \<le> pushed" by blast
  from e(6) show "pushed = Clamp (Demand (edges st source dest) div accuracy st) 1
               (UnsatisfiedDemand (edges st source dest))" by blast
  from e(4) show "unat (UnsatisfiedDemand (edges st'' source dest)) =
      unat (UnsatisfiedDemand (edges st source dest)) - unat pushed" .
  from e(5) show "unat pushed \<le> unat (UnsatisfiedDemand (edges st source dest))" .
qed

lemma two_node_shares_links:
  "share_links two_node_shares source_node \<subseteq> {(0, 1)}"
  by (auto simp: share_links_def two_node_shares_def split: if_splits)

lemma two_node_job_well_formed: "well_formed two_node_shares (two_node_job\<lparr>accuracy := 2\<rparr>)"
proof -
  have a: "acyclic (share_links two_node_shares source_node)" for source_node
  proof (rule acyclic_subset [OF _ two_node_shares_links])
    have "acyclic (insert (0 :: NodeID, 1 :: NodeID) {})"
      unfolding acyclic_insert by (simp add: wf_acyclic)
    then show "acyclic {(0 :: NodeID, 1 :: NodeID)}" .
  qed
  have b: "unat to < 2 \<and> Distance (edges two_node_job from' to) < UINT_MAX"
    if "(from', to) \<in> share_links two_node_shares source_node" for source_node from' to
  proof -
    from that two_node_shares_links have "from' = 0" "to = 1" by auto
    then show ?thesis by (simp add: two_node_job_def UINT_MAX_def)
  qed
  show ?thesis
    unfolding well_formed_def using a b by (simp add: two_node_job_def)
qed

theorem MCF2ndPass_terminates_witness:
  "well_formed two_node_shares (two_node_job\<lparr>accuracy := 2\<rparr>) \<and>
   (\<exists>st'. MCF2ndPass capacity_ratio two_node_shares (two_node_job\<lparr>accuracy := 2\<rparr>) =
      Some (Inr st')) \<and>
   (\<exists>s1. MCF2ndPass_sources capacity_ratio two_node_shares (nodes 2)
            (False, two_node_job\<lparr>accuracy := 2\<rparr>) = Some (Inr (True, s1)) \<and>
         well_formed two_node_shares s1 \<and>
         total_unsatisfied s1 < total_unsatisfied (two_node_job\<lparr>accuracy := 2\<rparr>)) \<and>
   (\<exists>pushed s. PushFlow (two_node_job\<lparr>accuracy := 2\<rparr>) (0, 1) 1 2 UINT_MAX =
            Some (Inr (pushed, s)) \<and> 1 \<le> pushed)"
proof -
  let ?st = "two_node_job\<lparr>accuracy := 2\<rparr>"
  let ?sweep = "\<lambda>s. MCF2ndPass_sources capacity_ratio two_node_shares (nodes (Size s)) (False, s)"
  have sz: "Size ?st = 2" "accuracy ?st = 2" by (simp_all add: two_node_job_def)
  note w = two_node_job_well_formed
  note t = MCF2ndPass_terminates [where ratio = capacity_ratio
      and flow_edges = two_node_shares and st = ?st]
  from t w have r: "\<exists>st'. MCF2ndPass capacity_ratio two_node_shares ?st = Some (Inr st')"
    by blast
  from t w obtain demand_left s1 where
    1: "?sweep ?st = Some (Inr (demand_left, s1))" and w1: "well_formed two_node_shares s1"
    by blast
  have "case ?sweep ?st of Some (Inr y) \<Rightarrow> fst y | _ \<Rightarrow> False"
    by code_simp
  with 1 have dl: demand_left by simp
  have lt: "total_unsatisfied s1 < total_unsatisfied ?st"
    using MCF2ndPass_terminates [where ratio = capacity_ratio and flow_edges = two_node_shares
        and st = ?st and demand_left = demand_left and st' = s1, THEN conjunct2,
        THEN conjunct1] 1 dl
    by blast
  have "case PushFlow ?st (0, 1) 1 2 UINT_MAX of Some (Inr y) \<Rightarrow> True | _ \<Rightarrow> False"
    by code_simp
  then obtain y where "PushFlow ?st (0, 1) 1 2 UINT_MAX = Some (Inr y)"
    by (rule result_caseE)
  then obtain pushed s where
    p: "PushFlow ?st (0, 1) 1 (accuracy ?st) UINT_MAX = Some (Inr (pushed, s))"
    using sz by (cases y) simp
  have "1 \<le> pushed"
    using MCF2ndPass_terminates [where st = ?st and source = 0 and dest = 1 and path = 1
        and pushed = pushed and st'' = s, THEN conjunct2, THEN conjunct2] p
    by blast
  with w r 1 dl w1 lt p sz show ?thesis by auto
qed


lemma MCF2ndPass_two_node_job:
  "case MCF2ndPass capacity_ratio two_node_shares (two_node_job\<lparr>accuracy := 2\<rparr>) of
     Some (Inr st') \<Rightarrow>
       UnsatisfiedDemand (edges st' 0 1) = 0 \<and> Flow (edges st' 0 1) = 50
   | _ \<Rightarrow> False"
  by code_simp


subsection \<open>The flow of a cycle and its elimination\<close>

lemma cycle_walk_cong:
  "(\<And>q. node (h' q) = node (h q)) \<Longrightarrow> cycle_walk h' path p rest e = cycle_walk h path p rest e"
  by (induction rest arbitrary: p) simp_all

lemma cycle_walk_end: "cycle_walk h path p rest e \<Longrightarrow> e \<notin> set rest"
  by (induction rest arbitrary: p) auto

lemma cycle_walk_unique:
  "cycle_walk h path p rest e \<Longrightarrow> cycle_walk h path p rest' e \<Longrightarrow> rest = rest'"
proof (induction rest arbitrary: p rest')
  case Nil
  then show ?case by (cases rest') auto
next
  case (Cons q qs)
  then show ?case by (cases rest') auto
qed

lemma cycle_walk_suffix:
  "cycle_walk h path p (xs @ q # ys) e \<Longrightarrow> cycle_walk h path q ys e"
  by (induction xs arbitrary: p) auto

lemma cycle_walk_begin:
  assumes "cycle_walk h path p rest e"
  shows "p \<notin> set rest"
proof
  assume "p \<in> set rest"
  then obtain xs ys where r: "rest = xs @ p # ys" by (auto simp: in_set_conv_decomp)
  with assms have "cycle_walk h path p ys e" using cycle_walk_suffix by blast
  with assms have "rest = ys" by (rule cycle_walk_unique)
  with r show False by simp
qed

lemma cycle_walk_distinct: "cycle_walk h path p rest e \<Longrightarrow> distinct (p # rest)"
proof (induction rest arbitrary: p)
  case Nil
  then show ?case by simp
next
  case (Cons q qs)
  from Cons.prems have "cycle_walk h path q qs e" by simp
  from Cons.IH [OF this] cycle_walk_begin [OF Cons.prems] show ?case by simp
qed

lemma cycle_walk_nth:
  "cycle_walk h path p rest e \<Longrightarrow> i \<le> length rest \<Longrightarrow>
   at path (node (h ((p # rest) ! i))) = Inr (Some ((rest @ [e]) ! i))"
proof (induction rest arbitrary: p i)
  case Nil
  then show ?case by simp
next
  case (Cons q qs)
  then show ?case by (cases i) auto
qed

lemma cycle_walk_nodes:
  assumes "cycle_walk h path p rest e"
  shows "distinct (map (\<lambda>q. node (h q)) (p # rest))"
proof -
  have d: "distinct (rest @ [e])"
    using cycle_walk_distinct [OF assms] cycle_walk_end [OF assms] by simp
  have *: "i = j" if "i \<le> length rest" "j \<le> length rest"
    "node (h ((p # rest) ! i)) = node (h ((p # rest) ! j))" for i j
  proof -
    from cycle_walk_nth [OF assms that(1)] cycle_walk_nth [OF assms that(2)] that(3)
    have "(rest @ [e]) ! i = (rest @ [e]) ! j" by simp
    with d that(1,2) show ?thesis by (simp add: nth_eq_iff_index_eq)
  qed
  show ?thesis
  proof (subst distinct_conv_nth, intro allI impI)
    fix i j
    assume "i < length (map (\<lambda>q. node (h q)) (p # rest))"
      and "j < length (map (\<lambda>q. node (h q)) (p # rest))" and "i \<noteq> j"
    then have "i \<le> length rest" "j \<le> length rest" "i < length (p # rest)"
      "j < length (p # rest)" "i \<noteq> j" by simp_all
    with * [of i j] show "map (\<lambda>q. node (h q)) (p # rest) ! i \<noteq>
        map (\<lambda>q. node (h q)) (p # rest) ! j"
      by (simp only: nth_map) blast
  qed
qed

lemma FindCycleFlow_loop_walk:
  "cycle_walk h path p rest e \<Longrightarrow>
   FindCycleFlow_loop h path e m p = Some (Inr (fold min (map (\<lambda>q. flow (h q)) (p # rest)) m))"
proof (induction rest arbitrary: p m)
  case Nil
  then show ?case by (subst FindCycleFlow_loop.simps) (simp add: min.commute)
next
  case (Cons q qs)
  then show ?case by (subst FindCycleFlow_loop.simps) (simp add: min.commute)
qed

lemma fold_min_UINT_MAX:
  "xs \<noteq> [] \<Longrightarrow> fold min xs UINT_MAX = Min (set xs)"
proof -
  assume "xs \<noteq> []"
  have "fold min xs UINT_MAX = Min (set (UINT_MAX # xs))" by (simp only: Min.set_eq_fold)
  also have "\<dots> = min UINT_MAX (Min (set xs))" using \<open>xs \<noteq> []\<close> by simp
  also have "\<dots> = Min (set xs)"
    using less_UINT_MAX [of "Min (set xs)"] by (auto simp: min_def)
  finally show ?thesis .
qed

lemma edge_update_apply:
  "edge_update g l job a b = (if (a, b) = l then g (job a b) else job a b)"
  by (cases l) (auto simp: edge_update_def)

lemma fold_edge_update_distinct:
  "distinct legs \<Longrightarrow>
   fold (edge_update g) legs job a b = (if (a, b) \<in> set legs then g (job a b) else job a b)"
proof (induction legs arbitrary: job)
  case Nil
  then show ?case by simp
next
  case (Cons l legs)
  from Cons.prems have "distinct legs" "l \<notin> set legs" by simp_all
  with Cons.IH [of "edge_update g l job"] show ?case
    by (auto simp: edge_update_apply)
qed

lemma ReduceFlow_node: "node (ReduceFlow f p) = node p"
  by (simp add: ReduceFlow_def)

lemma EliminateCycle_loop_walk:
  "cycle_walk (heap st) path p rest e \<Longrightarrow>
   EliminateCycle_loop path e f p st =
     Some (Inr (st\<lparr>heap := (\<lambda>q. if q \<in> set (p # rest) then ReduceFlow f (heap st q) else heap st q),
                  edges := fold (edge_update (RemoveFlow f))
                             (zip (map (\<lambda>q. node (heap st q)) (p # rest))
                                  (map (\<lambda>q. node (heap st q)) (rest @ [e])))
                             (edges st)\<rparr>))"
proof (induction rest arbitrary: p st)
  case Nil
  have "(heap st)(p := ReduceFlow f (heap st p)) =
        (\<lambda>q. if q \<in> set [p] then ReduceFlow f (heap st q) else heap st q)"
    by (rule ext) simp
  with Nil show ?case
    by (subst EliminateCycle_loop.simps) (simp add: Let_def ReduceFlow_node)
next
  case (Cons q qs)
  let ?h = "(heap st)(p := ReduceFlow f (heap st p))"
  let ?st = "st\<lparr>heap := ?h,
                edges := edge_update (RemoveFlow f) (node (heap st p), node (?h q)) (edges st)\<rparr>"
  have n: "node (?h x) = node (heap st x)" for x by (simp add: ReduceFlow_node)
  from Cons.prems have w: "cycle_walk (heap st) path q qs e"
    and a: "at path (node (heap st p)) = Inr (Some q)" and ne: "q \<noteq> e" by simp_all
  from w have w': "cycle_walk (heap ?st) path q qs e"
    using cycle_walk_cong [of ?h "heap st" path q qs e] n by simp
  from cycle_walk_begin [OF Cons.prems] have p: "p \<notin> set (q # qs)" .
  have h: "(\<lambda>x. if x \<in> set (q # qs) then ReduceFlow f (heap ?st x) else heap ?st x) =
           (\<lambda>x. if x \<in> set (p # q # qs) then ReduceFlow f (heap st x) else heap st x)"
    using p by (intro ext) auto
  have step: "EliminateCycle_loop path e f p st = EliminateCycle_loop path e f q ?st"
    using a ne by (subst EliminateCycle_loop.simps) (simp add: Let_def ReduceFlow_node)
  have nf: "(\<lambda>x. node (heap ?st x)) = (\<lambda>x. node (heap st x))"
    by (rule ext) (simp add: ReduceFlow_node)
  have "node (?h q) = node (heap st q)" by (rule n)
  then show ?case
    unfolding step Cons.IH [OF w'] h nf by simp
qed

lemma FindCycleFlow_loop_returns:
  assumes "FindCycleFlow_loop h path e m p = Some r"
  shows "\<forall>f. r = Inr f \<longrightarrow> (\<exists>rest. cycle_walk h path p rest e)"
proof (rule FindCycleFlow_loop.raw_induct
    [where P = "\<lambda>h path e m p r. \<forall>f. r = Inr f \<longrightarrow> (\<exists>rest. cycle_walk h path p rest e)",
     OF _ assms], goal_cases)
  case (1 loop h path e m p r)
  show ?case
  proof (intro allI impI)
    fix f assume r: "r = Inr f"
    from 1(2) r obtain nxt where a: "at path (node (h p)) = Inr (Some nxt)"
      by (auto split: sum.splits option.splits)
    show "\<exists>rest. cycle_walk h path p rest e"
    proof (cases "nxt = e")
      case True
      with a have "cycle_walk h path p [] e" by simp
      then show ?thesis ..
    next
      case False
      with 1(2) a have "loop h path e (min m (flow (h p))) nxt = Some r" by simp
      from 1(1) [OF this] r obtain rest where "cycle_walk h path nxt rest e" by blast
      with a False have "cycle_walk h path p (nxt # rest) e" by simp
      then show ?thesis ..
    qed
  qed
qed

lemma EliminateCycle_loop_returns:
  assumes "EliminateCycle_loop path e f p st = Some r"
  shows "\<forall>st'. r = Inr st' \<longrightarrow> (\<exists>rest. cycle_walk (heap st) path p rest e)"
proof (rule EliminateCycle_loop.raw_induct
    [where P = "\<lambda>path e f p st r. \<forall>st'. r = Inr st' \<longrightarrow> (\<exists>rest. cycle_walk (heap st) path p rest e)",
     OF _ assms], goal_cases)
  case (1 loop path e f p st r)
  show ?case
  proof (intro allI impI)
    fix st' assume r: "r = Inr st'"
    let ?h = "(heap st)(p := ReduceFlow f (heap st p))"
    from 1(2) r obtain nxt where a: "at path (node (heap st p)) = Inr (Some nxt)"
      by (auto simp: Let_def ReduceFlow_node split: sum.splits option.splits)
    show "\<exists>rest. cycle_walk (heap st) path p rest e"
    proof (cases "nxt = e")
      case True
      with a have "cycle_walk (heap st) path p [] e" by simp
      then show ?thesis ..
    next
      case False
      let ?st = "st\<lparr>heap := ?h,
                edges := edge_update (RemoveFlow f) (node (heap st p), node (?h nxt)) (edges st)\<rparr>"
      from 1(2) a False have "loop path e f nxt ?st = Some r"
        by (simp add: Let_def ReduceFlow_node)
      from 1(1) [OF this] r obtain rest where "cycle_walk (heap ?st) path nxt rest e" by blast
      then have "cycle_walk (heap st) path nxt rest e"
        using cycle_walk_cong [of ?h "heap st" path nxt rest e] by (simp add: ReduceFlow_node)
      with a False have "cycle_walk (heap st) path p (nxt # rest) e" by simp
      then show ?thesis ..
    qed
  qed
qed

text \<open>
  C7. Whenever \<open>FindCycleFlow\<close> or \<open>EliminateCycle\<close> returns, the path vector leads from
  \<open>p\<close> back to \<open>p\<close> through some paths \<open>rest\<close>. On such a cycle the paths are distinct,
  and so are the edges they traverse; \<open>FindCycleFlow\<close> returns the minimum of the flows
  of the paths of the cycle; \<open>EliminateCycle\<close> with a flow \<open>f\<close> subtracts \<open>f\<close> from the flow
  of each path of the cycle and from the flow of each traversed edge, once, and changes
  nothing else; and \<open>EliminateCycles\<close>, reaching the node of a path in progress, does the
  subtraction and reports a cycle exactly when the minimum is above 0, and otherwise
  changes nothing and reports none.
\<close>

theorem FindCycleFlow_EliminateCycle:
  "((\<exists>cycle_flow. FindCycleFlow (heap st) path p = Some (Inr cycle_flow)) \<or>
    (\<exists>st'. EliminateCycle path p f st = Some (Inr st')) \<longrightarrow>
      (\<exists>rest. cycle_walk (heap st) path p rest p)) \<and>
   (cycle_walk (heap st) path p rest p \<longrightarrow>
      distinct (p # rest) \<and> distinct (cycle_legs (heap st) (p # rest)) \<and>
      FindCycleFlow (heap st) path p =
        Some (Inr (Min (set (map (\<lambda>q. flow (heap st q)) (p # rest))))) \<and>
      (\<exists>st'. EliminateCycle path p f st = Some (Inr st') \<and>
         (\<forall>q. heap st' q =
            (if q \<in> set (p # rest) then (heap st q)\<lparr>flow := flow (heap st q) - f\<rparr>
             else heap st q)) \<and>
         (\<forall>a b. edges st' a b =
            (if (a, b) \<in> set (cycle_legs (heap st) (p # rest))
             then (edges st a b)\<lparr>Flow := Flow (edges st a b) - f\<rparr>
             else edges st a b)) \<and>
         Size st' = Size st \<and> accuracy st' = accuracy st \<and> Paths st' = Paths st \<and>
         brk st' = brk st \<and>
         (at path next_id = Inr (Some p) \<and> p \<noteq> invalid_path \<and>
          f = Min (set (map (\<lambda>q. flow (heap st q)) (p # rest))) \<longrightarrow>
            EliminateCycles (Suc depth) invalid_path origin_id next_id (st, path) =
              Some (Inr (if 0 < f then (True, st', path) else (False, st, path))))))"
proof (intro conjI impI)
  assume "(\<exists>cycle_flow. FindCycleFlow (heap st) path p = Some (Inr cycle_flow)) \<or>
    (\<exists>st'. EliminateCycle path p f st = Some (Inr st'))"
  then show "\<exists>rest. cycle_walk (heap st) path p rest p"
    using FindCycleFlow_loop_returns [of "heap st" path p UINT_MAX p]
      EliminateCycle_loop_returns [of path p f p st]
    unfolding FindCycleFlow_def EliminateCycle_def by blast
next
  assume w: "cycle_walk (heap st) path p rest p"
  let ?legs = "cycle_legs (heap st) (p # rest)"
  let ?f = "Min (set (map (\<lambda>q. flow (heap st q)) (p # rest)))"
  from cycle_walk_distinct [OF w] show "distinct (p # rest)" .
  have legs: "?legs = zip (map (\<lambda>q. node (heap st q)) (p # rest))
                         (map (\<lambda>q. node (heap st q)) (rest @ [p]))"
    by (simp add: cycle_legs_def)
  from cycle_walk_nodes [OF w] show dl: "distinct ?legs"
    unfolding legs by (rule distinct_zipI1)
  have "FindCycleFlow (heap st) path p =
      Some (Inr (fold min (map (\<lambda>q. flow (heap st q)) (p # rest)) UINT_MAX))"
    unfolding FindCycleFlow_def by (rule FindCycleFlow_loop_walk [OF w])
  also have "fold min (map (\<lambda>q. flow (heap st q)) (p # rest)) UINT_MAX = ?f"
    by (rule fold_min_UINT_MAX) simp
  finally show ff: "FindCycleFlow (heap st) path p = Some (Inr ?f)" .
  let ?st = "st\<lparr>heap := (\<lambda>q. if q \<in> set (p # rest) then ReduceFlow f (heap st q) else heap st q),
               edges := fold (edge_update (RemoveFlow f)) ?legs (edges st)\<rparr>"
  have e: "EliminateCycle path p f st = Some (Inr ?st)"
    unfolding EliminateCycle_def legs by (rule EliminateCycle_loop_walk [OF w])
  show "\<exists>st'. EliminateCycle path p f st = Some (Inr st') \<and>
         (\<forall>q. heap st' q =
            (if q \<in> set (p # rest) then (heap st q)\<lparr>flow := flow (heap st q) - f\<rparr>
             else heap st q)) \<and>
         (\<forall>a b. edges st' a b =
            (if (a, b) \<in> set (cycle_legs (heap st) (p # rest))
             then (edges st a b)\<lparr>Flow := Flow (edges st a b) - f\<rparr>
             else edges st a b)) \<and>
         Size st' = Size st \<and> accuracy st' = accuracy st \<and> Paths st' = Paths st \<and>
         brk st' = brk st \<and>
         (at path next_id = Inr (Some p) \<and> p \<noteq> invalid_path \<and> f = ?f \<longrightarrow>
            EliminateCycles (Suc depth) invalid_path origin_id next_id (st, path) =
              Some (Inr (if 0 < f then (True, st', path) else (False, st, path))))"
  proof (intro exI [of _ ?st] conjI allI impI)
    show "EliminateCycle path p f st = Some (Inr ?st)" by (rule e)
    show "heap ?st q = (if q \<in> set (p # rest) then (heap st q)\<lparr>flow := flow (heap st q) - f\<rparr>
             else heap st q)" for q
      by (simp add: ReduceFlow_def)
    show "edges ?st a b = (if (a, b) \<in> set ?legs
             then (edges st a b)\<lparr>Flow := Flow (edges st a b) - f\<rparr> else edges st a b)" for a b
      using fold_edge_update_distinct [OF dl, of "RemoveFlow f" "edges st" a b]
      by (simp add: RemoveFlow_def)
    show "Size ?st = Size st" "accuracy ?st = accuracy st" "Paths ?st = Paths st"
      "brk ?st = brk st" by simp_all
    assume a: "at path next_id = Inr (Some p) \<and> p \<noteq> invalid_path \<and> f = ?f"
    with ff have "FindCycleFlow (heap st) path p = Some (Inr f)" by simp
    with a e show "EliminateCycles (Suc depth) invalid_path origin_id next_id (st, path) =
        Some (Inr (if 0 < f then (True, ?st, path) else (False, st, path)))"
      by simp
  qed
qed

theorem FindCycleFlow_EliminateCycle_witness:
  "cycle_walk (heap cycle_job) [Some 0, Some 1] 0 [1] 0 \<and>
   cycle_legs (heap cycle_job) [0, 1] = [(1, 0), (0, 1)] \<and>
   FindCycleFlow (heap cycle_job) [Some 0, Some 1] 0 = Some (Inr 3) \<and>
   (\<exists>st'. EliminateCycle [Some 0, Some 1] 0 3 cycle_job = Some (Inr st') \<and>
      flow (heap st' 0) = 2 \<and> flow (heap st' 1) = 0 \<and> flow (heap st' 3) = 4 \<and>
      Flow (edges st' 0 1) = 6 \<and> Flow (edges st' 1 0) = 0 \<and>
      EliminateCycles 1 2 0 0 (cycle_job, [Some 0, Some 1]) =
        Some (Inr (True, st', [Some 0, Some 1])))"
proof -
  let ?path = "[Some 0, Some 1]"
  have w: "cycle_walk (heap cycle_job) ?path 0 [1] 0" by code_simp
  have l: "cycle_legs (heap cycle_job) [0, 1] = [(1, 0), (0, 1)]" by code_simp
  have m: "Min (set (map (\<lambda>q. flow (heap cycle_job q)) [0, 1])) = 3"
    by (simp add: cycle_job_def)
  have a: "at ?path 0 = Inr (Some 0)" by (simp add: at_def)
  note t = FindCycleFlow_EliminateCycle [where st = cycle_job and path = ?path and p = 0
      and rest = "[1]" and f = 3 and next_id = 0 and invalid_path = 2 and depth = 0
      and origin_id = 0, THEN conjunct2, rule_format, OF w, unfolded l m]
  from t have f: "FindCycleFlow (heap cycle_job) ?path 0 = Some (Inr 3)" by blast
  from t obtain st' where e: "EliminateCycle ?path 0 3 cycle_job = Some (Inr st')"
    and h: "\<And>q. heap st' q = (if q \<in> set [0, 1]
              then (heap cycle_job q)\<lparr>flow := flow (heap cycle_job q) - 3\<rparr>
              else heap cycle_job q)"
    and g: "\<And>a b. edges st' a b = (if (a, b) \<in> set [(1, 0), (0, 1)]
              then (edges cycle_job a b)\<lparr>Flow := Flow (edges cycle_job a b) - 3\<rparr>
              else edges cycle_job a b)"
    and c: "at ?path 0 = Inr (Some 0) \<and> (0::nat) \<noteq> 2 \<and> (3::uint) = 3 \<longrightarrow>
            EliminateCycles (Suc 0) 2 0 0 (cycle_job, ?path) =
              Some (Inr (if 0 < (3::uint) then (True, st', ?path) else (False, cycle_job, ?path)))"
    by blast
  from c a have c': "EliminateCycles 1 2 0 0 (cycle_job, ?path) = Some (Inr (True, st', ?path))"
    by simp
  have "flow (heap st' 0) = 2" "flow (heap st' 1) = 0" "flow (heap st' 3) = 4"
    "Flow (edges st' 0 1) = 6" "Flow (edges st' 1 0) = 0"
    unfolding h g by (simp_all add: cycle_job_def)
  with w l f e c' show ?thesis by blast
qed


subsection \<open>The marks of the cycle search\<close>















end
